theory Spec2Isabelle
  imports Main "HOL-Library.AList"
begin

section \<open>Data model of \<open>src/index.ts\<close>\<close>

text \<open>
  \<open>member.id\<close> is read from the API resource as it is, so it is \<open>undefined\<close> when the
  resource has no id; JavaScript maps and sets take \<open>undefined\<close> as a key like any other
  value. An identifier is therefore an optional string, \<open>None\<close> for \<open>undefined\<close>.
\<close>

type_synonym ident = "string option"

text \<open>
  \<open>MembershipData\<close>: the three fields the reconciliation reads. The descriptive fields
  (\<open>fullName\<close>, \<open>email\<close>, \<open>patronStatus\<close>, \<open>pledgeAmount\<close>, \<open>joinedAt\<close>, \<open>expiresAt\<close>,
  \<open>relationships\<close>) are carried in the payload and never read by \<open>checkForUpdates\<close>,
  \<open>emitAndTrack\<close> or \<open>hasProcessedEvent\<close>. \<open>discordId\<close> is \<open>string | null\<close>.
\<close>

record MembershipData =
  member_id :: ident
  status :: string
  discordId :: "string option"

datatype event_name =
  Subscribed | Connected | Canceled | Declined | Reactivated | Disconnected | Expired

text \<open>What an observer receives: the \<open>error\<close> event or a member event with its payload.\<close>

datatype emitted = ErrorEvent | MemberEvent event_name MembershipData

text \<open>
  The fields of the class \<open>PatreonEvents\<close> that a tick reads or writes.
  \<open>lastMemberships\<close> is the only map the code iterates, so it keeps the insertion
  order of a JavaScript \<open>Map\<close>: an association list, written with \<open>AList.update\<close>
  (in place for a known key, at the end for a new one) and \<open>AList.delete\<close>.
  \<open>lastDiscordIds\<close> holds \<open>string | null\<close>, so a lookup has three outcomes:
  \<open>None\<close> (\<open>undefined\<close>), \<open>Some None\<close> (\<open>null\<close>) and \<open>Some (Some d)\<close>.
\<close>

record PatreonEvents =
  lastMemberships :: "(ident \<times> string) list"
  lastDiscordIds :: "ident \<rightharpoonup> string option"
  isFirstRun :: bool
  subscribedMembers :: "ident set"
  canceledMembers :: "ident \<rightharpoonup> nat"
  declinedMembers :: "ident \<rightharpoonup> nat"
  reactivatedMembers :: "ident \<rightharpoonup> nat"
  connectedDiscords :: "ident \<rightharpoonup> string"
  disconnectedDiscords :: "ident \<rightharpoonup> string"
  discordToMemberMap :: "string \<rightharpoonup> MembershipData"

text \<open>The state of a new object when no cache file exists.\<close>

definition initial :: PatreonEvents where
  "initial = \<lparr> lastMemberships = [], lastDiscordIds = Map.empty, isFirstRun = True,
      subscribedMembers = {}, canceledMembers = Map.empty, declinedMembers = Map.empty,
      reactivatedMembers = Map.empty, connectedDiscords = Map.empty,
      disconnectedDiscords = Map.empty, discordToMemberMap = Map.empty \<rparr>"

text \<open>
  JavaScript truthiness of a value of type \<open>string | null | undefined\<close>: the empty
  string is falsy like \<open>null\<close> and \<open>undefined\<close>.
\<close>

definition truthy :: "string option \<Rightarrow> bool" where
  "truthy v = (case v of None \<Rightarrow> False | Some s \<Rightarrow> s \<noteq> [])"

section \<open>The Membership Source: \<open>fetchMemberships\<close>\<close>

text \<open>
  One member resource and one included resource of a Patreon response, with the fields
  the mapping reads: \<open>member.id\<close>, \<open>member.attributes?.patron_status\<close>,
  \<open>member.relationships?.user?.data?.id\<close>, and \<open>inc.type\<close>, \<open>inc.id\<close>,
  \<open>inc.attributes?.social_connections?.discord?.user_id\<close>.
\<close>

record member_resource =
  res_id :: "string option"
  patron_status :: "string option"
  user_ref :: "string option"

record included_resource =
  inc_type :: string
  inc_id :: "string option"
  discord_user_id :: "string option"

text \<open>
  What the server answers to the requests of one fetch: the request throws, the body
  has no \<open>data\<close> array, or it is a page with its \<open>links.next\<close>. The chain of pages is
  finite; a server that links pages forever keeps the \<open>while\<close> loop running and is
  outside this model.
\<close>

datatype source =
  Throws
  | Unexpected
  | Page "member_resource list" "included_resource list" "source option"

text \<open>The callback of \<open>allMembers.map\<close> (lines 271-300).\<close>

definition toMembership :: "included_resource list \<Rightarrow> member_resource \<Rightarrow> MembershipData" where
  "toMembership allIncluded member =
    (let userData = find (\<lambda>inc. inc_type inc = ''user'' \<and> inc_id inc = user_ref member) allIncluded;
         discord = (case userData of
                      None \<Rightarrow> None
                    | Some u \<Rightarrow> if truthy (discord_user_id u) then discord_user_id u else None)
     in \<lparr> member_id = res_id member,
          status = (if truthy (patron_status member) then the (patron_status member) else ''none''),
          discordId = discord \<rparr>)"

datatype 'a completion = Thrown | Returned 'a

text \<open>The \<open>while (nextUrl)\<close> loop and the final \<open>map\<close>, inside the \<open>try\<close>.\<close>

fun fetchLoop ::
  "source \<Rightarrow> member_resource list \<Rightarrow> included_resource list \<Rightarrow> MembershipData list completion"
where
  "fetchLoop Throws allMembers allIncluded = Thrown"
| "fetchLoop Unexpected allMembers allIncluded = Returned []"
| "fetchLoop (Page d inc None) allMembers allIncluded =
     Returned (map (toMembership (allIncluded @ inc)) (allMembers @ d))"
| "fetchLoop (Page d inc (Some nxt)) allMembers allIncluded =
     fetchLoop nxt (allMembers @ d) (allIncluded @ inc)"

text \<open>
  \<open>fetchMemberships\<close>: the \<open>catch\<close> emits \<open>error\<close> and returns the empty list. Node's
  \<open>EventEmitter\<close> throws the error out of \<open>emit\<close> when \<open>error\<close> has no listener, which
  rejects the promise; \<open>errorListener\<close> says whether a listener is registered. The
  result is the events emitted and the list returned.
\<close>

definition fetchMemberships :: "bool \<Rightarrow> source \<Rightarrow> (emitted list \<times> MembershipData list) completion" where
  "fetchMemberships errorListener src =
    (case fetchLoop src [] [] of
       Returned ms \<Rightarrow> Returned ([], ms)
     | Thrown \<Rightarrow> if errorListener then Returned ([ErrorEvent], []) else Thrown)"

section \<open>The dedup trackers: \<open>emitAndTrack\<close> and \<open>hasProcessedEvent\<close>\<close>

text \<open>
  The \<open>switch\<close> of \<open>emitAndTrack\<close>. Every \<open>if (m.has(id)) m.delete(id)\<close> of the source
  is the deletion itself, the test guarding only the log line. \<open>now\<close> is \<open>Date.now()\<close>.
\<close>

fun track :: "event_name \<Rightarrow> MembershipData \<Rightarrow> nat \<Rightarrow> PatreonEvents \<Rightarrow> PatreonEvents" where
  "track Subscribed member now s =
     s\<lparr> subscribedMembers := insert (member_id member) (subscribedMembers s),
        canceledMembers := (canceledMembers s)(member_id member := None),
        declinedMembers := (declinedMembers s)(member_id member := None) \<rparr>"
| "track Reactivated member now s =
     s\<lparr> reactivatedMembers := (reactivatedMembers s)(member_id member \<mapsto> now),
        canceledMembers := (canceledMembers s)(member_id member := None),
        declinedMembers := (declinedMembers s)(member_id member := None) \<rparr>"
| "track Canceled member now s =
     s\<lparr> canceledMembers := (canceledMembers s)(member_id member \<mapsto> now),
        subscribedMembers := subscribedMembers s - {member_id member},
        reactivatedMembers := (reactivatedMembers s)(member_id member := None) \<rparr>"
| "track Declined member now s =
     s\<lparr> declinedMembers := (declinedMembers s)(member_id member \<mapsto> now),
        subscribedMembers := subscribedMembers s - {member_id member},
        reactivatedMembers := (reactivatedMembers s)(member_id member := None) \<rparr>"
| "track Connected member now s =
     (if truthy (discordId member)
      then s\<lparr> connectedDiscords := (connectedDiscords s)(member_id member \<mapsto> the (discordId member)),
              disconnectedDiscords := (disconnectedDiscords s)(member_id member := None) \<rparr>
      else s)"
| "track Disconnected member now s =
     (if truthy (discordId member)
      then s\<lparr> disconnectedDiscords := (disconnectedDiscords s)(member_id member \<mapsto> the (discordId member)),
              connectedDiscords := (connectedDiscords s)(member_id member := None) \<rparr>
      else s)"
| "track Expired member now s =
     s\<lparr> subscribedMembers := subscribedMembers s - {member_id member} \<rparr>"

text \<open>
  A tick in progress: the object's state and the events emitted so far, oldest first.
  Every tracked \<open>emitAndTrack\<close> reads \<open>Date.now()\<close> once and emits once, so the clock
  is a function of the number of events emitted so far in the tick. The listeners of the
  member events are taken not to throw: \<open>super.emit\<close> returns and the tick goes on.
\<close>

type_synonym tick = "PatreonEvents \<times> emitted list"

definition emitAndTrack :: "(nat \<Rightarrow> nat) \<Rightarrow> event_name \<Rightarrow> MembershipData \<Rightarrow> tick \<Rightarrow> tick" where
  "emitAndTrack clock event data t =
     (track event data (clock (length (snd t))) (fst t), snd t @ [MemberEvent event data])"

definition hasProcessedEvent :: "event_name \<Rightarrow> MembershipData \<Rightarrow> PatreonEvents \<Rightarrow> bool" where
  "hasProcessedEvent event member s =
    (case event of
       Subscribed \<Rightarrow> member_id member \<in> subscribedMembers s
     | Connected \<Rightarrow> connectedDiscords s (member_id member) \<noteq> None \<and>
                     connectedDiscords s (member_id member) = discordId member
     | Disconnected \<Rightarrow> disconnectedDiscords s (member_id member) \<noteq> None \<and>
                        disconnectedDiscords s (member_id member) = discordId member
     | _ \<Rightarrow> False)"

section \<open>The reconciliation: \<open>checkForUpdates\<close>\<close>

text \<open>``Membership status changes'' (lines 460-479); \<open>previousStatus\<close> was read before.\<close>

definition statusChanges ::
  "(nat \<Rightarrow> nat) \<Rightarrow> string option \<Rightarrow> MembershipData \<Rightarrow> tick \<Rightarrow> tick"
where
  "statusChanges clock previousStatus member t =
    (if \<not> truthy previousStatus then
       (if \<not> isFirstRun (fst t) \<and> \<not> hasProcessedEvent Subscribed member (fst t)
        then emitAndTrack clock Subscribed member t else t)
     else if previousStatus \<noteq> Some (status member) then
       (let t1 = (if status member = ''former_patron''
                  then emitAndTrack clock Canceled member t else t);
            t2 = (if status member = ''declined_patron''
                  then emitAndTrack clock Declined member t1 else t1);
            t3 = (if status member = ''active_patron'' \<and>
                     (previousStatus = Some ''former_patron'' \<or>
                      previousStatus = Some ''declined_patron'')
                  then emitAndTrack clock Reactivated member t2 else t2)
        in (if status member = ''none'' then emitAndTrack clock Expired member t3 else t3))
     else t)"

text \<open>``Discord connection changes'' (lines 481-515).\<close>

definition discordChanges ::
  "(nat \<Rightarrow> nat) \<Rightarrow> string option option \<Rightarrow> MembershipData \<Rightarrow> tick \<Rightarrow> tick"
where
  "discordChanges clock previousDiscordId member t =
    (case previousDiscordId of
       Some (Some previous) \<Rightarrow>
         (let disconnectMember = member\<lparr> discordId := Some previous \<rparr> in
          if \<not> truthy (discordId member) then
            (if \<not> hasProcessedEvent Disconnected disconnectMember (fst t)
             then emitAndTrack clock Disconnected disconnectMember t else t)
          else if Some previous \<noteq> discordId member then
            (let t1 = (if \<not> hasProcessedEvent Disconnected disconnectMember (fst t)
                       then emitAndTrack clock Disconnected disconnectMember t else t)
             in (if \<not> hasProcessedEvent Connected member (fst t1)
                 then emitAndTrack clock Connected member t1 else t1))
          else t)
     | _ \<Rightarrow>
         (if truthy (discordId member) \<and> \<not> hasProcessedEvent Connected member (fst t)
          then emitAndTrack clock Connected member t else t))"

text \<open>The callback of \<open>memberships.forEach\<close> (lines 447-520).\<close>

definition processMember :: "(nat \<Rightarrow> nat) \<Rightarrow> MembershipData \<Rightarrow> tick \<Rightarrow> tick" where
  "processMember clock member t =
    (let previousStatus = map_of (lastMemberships (fst t)) (member_id member);
         previousDiscordId = lastDiscordIds (fst t) (member_id member);
         t0 = (if truthy (discordId member)
               then ((fst t)\<lparr> discordToMemberMap :=
                        (discordToMemberMap (fst t))(the (discordId member) \<mapsto> member) \<rparr>, snd t)
               else t);
         t1 = statusChanges clock previousStatus member t0;
         t2 = discordChanges clock previousDiscordId member t1
     in ((fst t2)\<lparr> lastMemberships :=
                     AList.update (member_id member) (status member) (lastMemberships (fst t2)),
                   lastDiscordIds :=
                     (lastDiscordIds (fst t2))(member_id member \<mapsto> discordId member) \<rparr>,
         snd t2))"

text \<open>
  The body of the loop ``Detect removed members'' (lines 523-545) for one key. Only the
  key being visited is deleted, so the loop visits the keys the map had when it began.
\<close>

definition removeMember :: "(nat \<Rightarrow> nat) \<Rightarrow> ident set \<Rightarrow> ident \<Rightarrow> tick \<Rightarrow> tick" where
  "removeMember clock currentMembers i t =
    (if i \<notin> currentMembers then
       (let lastKnownStatus = (if truthy (map_of (lastMemberships (fst t)) i)
                               then the (map_of (lastMemberships (fst t)) i) else ''none'');
            lastKnownDiscordId = lastDiscordIds (fst t) i;
            t1 = (case lastKnownDiscordId of
                    Some (Some d) \<Rightarrow>
                      (if d \<noteq> [] then
                         (let disconnectMember =
                                \<lparr> member_id = i, status = lastKnownStatus, discordId = Some d \<rparr>
                          in if \<not> hasProcessedEvent Disconnected disconnectMember (fst t)
                             then emitAndTrack clock Disconnected disconnectMember t else t)
                       else t)
                  | _ \<Rightarrow> t)
        in ((fst t1)\<lparr> lastMemberships := AList.delete i (lastMemberships (fst t1)),
                      lastDiscordIds := (lastDiscordIds (fst t1))(i := None) \<rparr>,
            snd t1))
     else t)"

text \<open>
  The body of the \<open>try\<close> of \<open>checkForUpdates\<close> after the fetch: the diff of a batch
  against the state. It returns the state after the tick and the events in the order of
  emission. \<open>saveCache\<close> writes a copy of the state to the cache file and changes nothing
  in memory.
\<close>

definition reconcile ::
  "(nat \<Rightarrow> nat) \<Rightarrow> MembershipData list \<Rightarrow> PatreonEvents \<Rightarrow> PatreonEvents \<times> emitted list"
where
  "reconcile clock memberships s =
    (let currentMembers = set (map member_id memberships);
         t0 = (s\<lparr> discordToMemberMap := Map.empty \<rparr>, []);
         t1 = fold (processMember clock) memberships t0;
         t2 = fold (removeMember clock currentMembers) (map fst (lastMemberships (fst t1))) t1
     in ((fst t2)\<lparr> isFirstRun := False \<rparr>, snd t2))"

text \<open>
  \<open>checkForUpdates\<close>. When the fetch rejects (no \<open>error\<close> listener), the \<open>catch\<close> emits
  \<open>error\<close> again, which throws again: the promise rejects with the state as it was.
\<close>

datatype outcome = Rejected | Resolved

definition checkForUpdates ::
  "(nat \<Rightarrow> nat) \<Rightarrow> bool \<Rightarrow> source \<Rightarrow> PatreonEvents \<Rightarrow> outcome \<times> PatreonEvents \<times> emitted list"
where
  "checkForUpdates clock errorListener src s =
    (case fetchMemberships errorListener src of
       Thrown \<Rightarrow> (Rejected, s, [])
     | Returned (errors, memberships) \<Rightarrow>
         (let (s', events) = reconcile clock memberships s
          in (Resolved, s', errors @ events)))"

section \<open>Predicates of the specification\<close>

text \<open>The dedup trackers of a state: the six fields \<open>emitAndTrack\<close> writes.\<close>

definition trackers ::
  "PatreonEvents \<Rightarrow> ident set \<times> (ident \<rightharpoonup> nat) \<times> (ident \<rightharpoonup> nat) \<times> (ident \<rightharpoonup> nat) \<times>
     (ident \<rightharpoonup> string) \<times> (ident \<rightharpoonup> string)"
where
  "trackers s = (subscribedMembers s, canceledMembers s, declinedMembers s,
                 reactivatedMembers s, connectedDiscords s, disconnectedDiscords s)"

text \<open>No id has both a connect record and a disconnect record.\<close>

definition linkageExclusive :: "PatreonEvents \<Rightarrow> bool" where
  "linkageExclusive s \<longleftrightarrow> dom (connectedDiscords s) \<inter> dom (disconnectedDiscords s) = {}"

text \<open>
  The disposition invariant as the specification words it: an id is in at most one of
  the subscribed set, the cancel records and the decline records.
\<close>

definition atMostOneDisposition :: "PatreonEvents \<Rightarrow> bool" where
  "atMostOneDisposition s \<longleftrightarrow>
     subscribedMembers s \<inter> dom (canceledMembers s) = {} \<and>
     subscribedMembers s \<inter> dom (declinedMembers s) = {} \<and>
     dom (canceledMembers s) \<inter> dom (declinedMembers s) = {}"

text \<open>The part of it about the subscribed set.\<close>

definition subscribedExclusive :: "PatreonEvents \<Rightarrow> bool" where
  "subscribedExclusive s \<longleftrightarrow>
     subscribedMembers s \<inter> dom (canceledMembers s) = {} \<and>
     subscribedMembers s \<inter> dom (declinedMembers s) = {}"

text \<open>
  Events by name and by the id in their payload. The lifecycle events are those of the
  status branch of \<open>checkForUpdates\<close>, the linkage events those of its Discord branch.
\<close>

definition lifecycleNames :: "event_name set" where
  "lifecycleNames = {Subscribed, Canceled, Declined, Reactivated, Expired}"

definition linkageNames :: "event_name set" where
  "linkageNames = {Connected, Disconnected}"

definition eventOf :: "event_name set \<Rightarrow> ident \<Rightarrow> emitted \<Rightarrow> bool" where
  "eventOf names i e =
     (case e of MemberEvent k p \<Rightarrow> k \<in> names \<and> member_id p = i | ErrorEvent \<Rightarrow> False)"

text \<open>
  The events of one record of the batch: lifecycle events of the record's id, then
  linkage events of the record's id. After the longest prefix of lifecycle events of
  the id, only linkage events of the id follow.
\<close>

definition recordBlock :: "MembershipData \<Rightarrow> emitted list \<Rightarrow> bool" where
  "recordBlock m b \<longleftrightarrow>
     (\<forall>e \<in> set (dropWhile (eventOf lifecycleNames (member_id m)) b).
        eventOf linkageNames (member_id m) e)"

text \<open>The name of an event, and the test ``is not a \<open>subscribed\<close> event''.\<close>

fun nameOf :: "emitted \<Rightarrow> event_name option" where
  "nameOf ErrorEvent = None"
| "nameOf (MemberEvent k p) = Some k"

abbreviation (input) notSubscribed :: "emitted \<Rightarrow> bool" where
  "notSubscribed e \<equiv> nameOf e \<noteq> Some Subscribed"

text \<open>
  What the guards of every event but \<open>subscribed\<close> read: the last statuses and linkages
  and the connect and disconnect records.
\<close>

definition linkageView ::
  "PatreonEvents \<Rightarrow> (ident \<times> string) list \<times> (ident \<rightharpoonup> string option) \<times>
     (ident \<rightharpoonup> string) \<times> (ident \<rightharpoonup> string)"
where
  "linkageView s = (lastMemberships s, lastDiscordIds s, connectedDiscords s, disconnectedDiscords s)"

text \<open>
  A tick on its first run against the same tick not on its first run: they agree on
  \<open>linkageView\<close>, and the first has emitted what the second has, less the
  \<open>subscribed\<close> events.
\<close>

definition firstRunSim :: "tick \<Rightarrow> tick \<Rightarrow> bool" where
  "firstRunSim t t' \<longleftrightarrow>
     isFirstRun (fst t) \<and> \<not> isFirstRun (fst t') \<and>
     snd t = filter notSubscribed (snd t') \<and> linkageView (fst t) = linkageView (fst t')"

text \<open>The linkage of a \<open>lastDiscordIds\<close> lookup when it is truthy.\<close>

definition truthyPart :: "string option option \<Rightarrow> string option" where
  "truthyPart pd = (case pd of Some (Some d) \<Rightarrow> if d \<noteq> [] then Some d else None | _ \<Rightarrow> None)"

text \<open>A \<open>connected\<close> event for id \<open>i\<close> carrying linkage \<open>d\<close> is among the events.\<close>

definition connectedEmitted :: "ident \<Rightarrow> string option \<Rightarrow> emitted list \<Rightarrow> bool" where
  "connectedEmitted i d out \<longleftrightarrow>
     (\<exists>e \<in> set out. nameOf e = Some Connected \<and> eventOf UNIV i e \<and>
        (case e of MemberEvent k p \<Rightarrow> discordId p = d | ErrorEvent \<Rightarrow> False))"

text \<open>
  What holds throughout a tick that started from the empty cache: the connect record
  of an id is its last truthy linkage, connect and disconnect records exclude each
  other, and every connect record was announced by a \<open>connected\<close> event of this tick.
\<close>

definition coldInv :: "tick \<Rightarrow> bool" where
  "coldInv t \<longleftrightarrow>
     (\<forall>i. connectedDiscords (fst t) i = truthyPart (lastDiscordIds (fst t) i)) \<and>
     linkageExclusive (fst t) \<and>
     (\<forall>i d. connectedDiscords (fst t) i = Some d \<longrightarrow> connectedEmitted i (Some d) (snd t))"

text \<open>
  The per-entity order of the specification: once a linkage event of id \<open>i\<close> has been
  emitted, no lifecycle event of \<open>i\<close> follows.
\<close>

fun entityOrdered :: "ident \<Rightarrow> emitted list \<Rightarrow> bool" where
  "entityOrdered i [] = True"
| "entityOrdered i (e # es) =
     (if eventOf linkageNames i e then (\<forall>e' \<in> set es. \<not> eventOf lifecycleNames i e')
      else entityOrdered i es)"

section \<open>The scheduler: \<open>initialize\<close> and \<open>stop\<close>\<close>

text \<open>
  What \<open>initialize\<close> (lines 572-585) and \<open>stop\<close> (lines 613-629) read and write of the
  timer, with one atomic step per callback of the event loop. \<open>intervalArmed\<close> says
  that \<open>intervalId\<close> holds a running timer; \<open>firstCheckPending\<close> that the
  \<open>checkForUpdates\<close> called by \<open>initialize\<close> has not settled, so that its \<open>then\<close> callback
  is still to run; \<open>inFlight\<close> counts the calls of \<open>checkForUpdates\<close> that have begun
  and not settled; \<open>stopped\<close> that \<open>stop\<close> has returned.
\<close>

record scheduler =
  intervalArmed :: bool
  firstCheckPending :: bool
  inFlight :: nat
  stopped :: bool

definition idle :: scheduler where
  "idle = \<lparr> intervalArmed = False, firstCheckPending = False, inFlight = 0, stopped = False \<rparr>"

text \<open>
  The callbacks. \<open>Initialize\<close> is the call of \<open>initialize\<close>: it begins the first
  \<open>checkForUpdates\<close>, which runs up to its \<open>await\<close>. \<open>FetchSettles\<close> is the settling of a
  check in flight; when it is the first one, the \<open>then\<close> callback of line 574 runs and
  calls \<open>setInterval\<close>. \<open>TimerFires\<close> is the callback of that timer, which calls
  \<open>checkForUpdates\<close> and tests nothing; how long a fetch takes against \<open>checkInterval\<close>
  is left open, so the timer may fire whenever it is armed. \<open>Stop\<close> is the call of
  \<open>stop\<close>: it clears the timer when \<open>intervalId\<close> is set.
\<close>

datatype step = Initialize | TimerFires | FetchSettles | Stop

fun enabled :: "step \<Rightarrow> scheduler \<Rightarrow> bool" where
  "enabled Initialize s = True"
| "enabled TimerFires s = intervalArmed s"
| "enabled FetchSettles s = (0 < inFlight s)"
| "enabled Stop s = True"

fun fire :: "step \<Rightarrow> scheduler \<Rightarrow> scheduler" where
  "fire Initialize s = s\<lparr> inFlight := inFlight s + 1, firstCheckPending := True \<rparr>"
| "fire TimerFires s = s\<lparr> inFlight := inFlight s + 1 \<rparr>"
| "fire FetchSettles s =
     (if firstCheckPending s
      then s\<lparr> inFlight := inFlight s - 1, firstCheckPending := False, intervalArmed := True \<rparr>
      else s\<lparr> inFlight := inFlight s - 1 \<rparr>)"
| "fire Stop s = s\<lparr> intervalArmed := False, stopped := True \<rparr>"

text \<open>A run of callbacks in order; \<open>None\<close> when one of them cannot happen.\<close>

fun run :: "step list \<Rightarrow> scheduler \<Rightarrow> scheduler option" where
  "run [] s = Some s"
| "run (x # xs) s = (if enabled x s then run xs (fire x s) else None)"

section \<open>Frame lemmas\<close>

lemma track_frame [simp]:
  "lastMemberships (track e m n s) = lastMemberships s"
  "lastDiscordIds (track e m n s) = lastDiscordIds s"
  "isFirstRun (track e m n s) = isFirstRun s"
  "discordToMemberMap (track e m n s) = discordToMemberMap s"
  by (cases e; simp)+

lemma emitAndTrack_simps [simp]:
  "snd (emitAndTrack clk e m t) = snd t @ [MemberEvent e m]"
  "fst (emitAndTrack clk e m t) = track e m (clk (length (snd t))) (fst t)"
  by (simp_all add: emitAndTrack_def)

lemma trackers_update [simp]:
  "trackers (s\<lparr>lastMemberships := a\<rparr>) = trackers s"
  "trackers (s\<lparr>lastDiscordIds := b\<rparr>) = trackers s"
  "trackers (s\<lparr>isFirstRun := c\<rparr>) = trackers s"
  "trackers (s\<lparr>discordToMemberMap := d\<rparr>) = trackers s"
  by (simp_all add: trackers_def)

declare track.simps [simp del]

section \<open>A property of the trackers that \<open>track\<close> keeps is kept by a tick\<close>

lemma statusChanges_trackers:
  assumes step: "\<And>e m n s. Q (trackers s) \<Longrightarrow> Q (trackers (track e m n s))"
      and "Q (trackers (fst t))"
  shows "Q (trackers (fst (statusChanges clk ps m t)))"
  using assms(2) by (simp add: statusChanges_def Let_def step)

lemma discordChanges_trackers:
  assumes step: "\<And>e m n s. Q (trackers s) \<Longrightarrow> Q (trackers (track e m n s))"
      and "Q (trackers (fst t))"
  shows "Q (trackers (fst (discordChanges clk pd m t)))"
  using assms(2) by (simp add: discordChanges_def Let_def step split: option.splits)

lemma processMember_trackers:
  assumes step: "\<And>e m n s. Q (trackers s) \<Longrightarrow> Q (trackers (track e m n s))"
      and "Q (trackers (fst t))"
  shows "Q (trackers (fst (processMember clk m t)))"
proof -
  let ?t0 = "(if truthy (discordId m)
               then ((fst t)\<lparr> discordToMemberMap :=
                        (discordToMemberMap (fst t))(the (discordId m) \<mapsto> m) \<rparr>, snd t)
               else t)"
  have "Q (trackers (fst ?t0))" using assms(2) by simp
  then show ?thesis
    unfolding processMember_def Let_def
    by (simp add: discordChanges_trackers [where Q = Q, OF step]
                  statusChanges_trackers [where Q = Q, OF step])
qed

lemma removeMember_trackers:
  assumes step: "\<And>e m n s. Q (trackers s) \<Longrightarrow> Q (trackers (track e m n s))"
      and "Q (trackers (fst t))"
  shows "Q (trackers (fst (removeMember clk cur i t)))"
  using assms(2) by (simp add: removeMember_def Let_def step split: option.splits)

lemma fold_trackers:
  assumes "\<And>x t. Q (trackers (fst t)) \<Longrightarrow> Q (trackers (fst (f x t)))"
      and "Q (trackers (fst t))"
  shows "Q (trackers (fst (fold f xs t)))"
  using assms(2) by (induction xs arbitrary: t) (simp_all add: assms(1))

lemma reconcile_trackers:
  assumes step: "\<And>e m n s. Q (trackers s) \<Longrightarrow> Q (trackers (track e m n s))"
      and "Q (trackers s)"
  shows "Q (trackers (fst (reconcile clk C s)))"
proof -
  have "Q (trackers (fst (s\<lparr> discordToMemberMap := Map.empty \<rparr>, [])))"
    using assms(2) by simp
  then have "Q (trackers (fst (fold (processMember clk) C
                (s\<lparr> discordToMemberMap := Map.empty \<rparr>, []))))"
    by (rule fold_trackers [rotated]) (rule processMember_trackers [where Q = Q, OF step])
  then show ?thesis
    unfolding reconcile_def Let_def
    by (simp add: fold_trackers [where Q = Q, OF removeMember_trackers [where Q = Q, OF step]])
qed

lemma checkForUpdates_trackers:
  assumes step: "\<And>e m n s. Q (trackers s) \<Longrightarrow> Q (trackers (track e m n s))"
      and "Q (trackers s)"
  shows "Q (trackers (fst (snd (checkForUpdates clk l src s))))"
proof (cases "fetchMemberships l src")
  case Thrown
  then show ?thesis using assms(2) by (simp add: checkForUpdates_def)
next
  case (Returned r)
  obtain errors ms where r: "r = (errors, ms)" by (cases r)
  obtain s' evs where rc: "reconcile clk ms s = (s', evs)" by (cases "reconcile clk ms s")
  from reconcile_trackers [where Q = Q, OF step assms(2), of clk ms] rc
  show ?thesis by (simp add: checkForUpdates_def Returned r)
qed

section \<open>Connect and disconnect records exclude each other\<close>

lemma linkageExclusive_trackers:
  "linkageExclusive s = (case trackers s of (_, _, _, _, c, d) \<Rightarrow> dom c \<inter> dom d = {})"
  by (simp add: linkageExclusive_def trackers_def)

lemma track_linkageExclusive:
  "linkageExclusive s \<Longrightarrow> linkageExclusive (track e m n s)"
  by (cases e) (auto simp: linkageExclusive_def track.simps)

text \<open>
  Claim C5. The state of a fresh start has no id in both \<open>connectedDiscords\<close> and
  \<open>disconnectedDiscords\<close>, and a tick (\<open>checkForUpdates\<close>, whatever the source answers)
  keeps it so. Recording a connection stores the linkage and deletes the disconnect
  record of the id; recording a disconnection stores the linkage and deletes the
  connect record.
\<close>

theorem linkage_exclusive_invariant:
  "linkageExclusive initial \<and>
   (linkageExclusive s \<longrightarrow>
      linkageExclusive (fst (snd (checkForUpdates clock errorListener src s)))) \<and>
   (truthy (discordId m) \<longrightarrow>
      connectedDiscords (track Connected m now s) (member_id m) = discordId m \<and>
      disconnectedDiscords (track Connected m now s) (member_id m) = None) \<and>
   (truthy (discordId m) \<longrightarrow>
      disconnectedDiscords (track Disconnected m now s) (member_id m) = discordId m \<and>
      connectedDiscords (track Disconnected m now s) (member_id m) = None)"
proof -
  have "linkageExclusive initial"
    by (simp add: linkageExclusive_def initial_def)
  moreover have "linkageExclusive (fst (snd (checkForUpdates clock errorListener src s)))"
    if "linkageExclusive s"
    using that unfolding linkageExclusive_trackers
    by (rule checkForUpdates_trackers [rotated])
       (use track_linkageExclusive in \<open>simp add: linkageExclusive_trackers\<close>)
  moreover have "truthy (discordId m) \<Longrightarrow> the (discordId m) = x \<Longrightarrow> Some x = discordId m" for x
    by (cases "discordId m") (simp_all add: truthy_def)
  ultimately show ?thesis
    by (simp add: track.simps)
qed

theorem linkage_exclusive_invariant_witness:
  "linkageExclusive initial \<and>
   linkageExclusive (fst (snd (checkForUpdates id True
      (Page [\<lparr> res_id = Some ''A'', patron_status = Some ''active_patron'', user_ref = Some ''U'' \<rparr>]
            [\<lparr> inc_type = ''user'', inc_id = Some ''U'', discord_user_id = Some ''D1'' \<rparr>] None)
      initial))) \<and>
   truthy (Some ''D1'') \<and>
   connectedDiscords
     (track Connected \<lparr> member_id = Some ''A'', status = ''active_patron'', discordId = Some ''D1'' \<rparr>
        0 initial) (Some ''A'') = Some ''D1'' \<and>
   connectedDiscords
     (track Disconnected \<lparr> member_id = Some ''A'', status = ''active_patron'', discordId = Some ''D1'' \<rparr>
        0 initial) (Some ''A'') = None"
  using linkage_exclusive_invariant [of initial id True
      "Page [\<lparr> res_id = Some ''A'', patron_status = Some ''active_patron'', user_ref = Some ''U'' \<rparr>]
            [\<lparr> inc_type = ''user'', inc_id = Some ''U'', discord_user_id = Some ''D1'' \<rparr>] None"
      "\<lparr> member_id = Some ''A'', status = ''active_patron'', discordId = Some ''D1'' \<rparr>" 0]
  by (simp add: truthy_def)

section \<open>The membership disposition of an id\<close>

lemmas tick_defs = checkForUpdates_def fetchMemberships_def toMembership_def reconcile_def
  processMember_def statusChanges_def discordChanges_def removeMember_def
  hasProcessedEvent_def truthy_def initial_def Let_def track.simps

lemma subscribedExclusive_trackers:
  "subscribedExclusive s =
     (case trackers s of (sub, canc, decl, _) \<Rightarrow> sub \<inter> dom canc = {} \<and> sub \<inter> dom decl = {})"
  by (simp add: subscribedExclusive_def trackers_def)

lemma track_subscribedExclusive:
  "subscribedExclusive s \<Longrightarrow> subscribedExclusive (track e m n s)"
  by (cases e) (auto simp: subscribedExclusive_def track.simps)

text \<open>
  Claim C2 fails as stated: \<open>track Canceled\<close> leaves the decline record and
  \<open>track Declined\<close> leaves the cancel record. From a fresh start, a member seen
  active, then declined, then former has both a decline and a cancel record after the
  third tick.
\<close>

theorem disposition_counterexample:
  "atMostOneDisposition initial \<and>
   \<not> atMostOneDisposition
     (fst (snd (checkForUpdates id True
        (Page [\<lparr> res_id = Some ''A'', patron_status = Some ''former_patron'', user_ref = None \<rparr>] [] None)
     (fst (snd (checkForUpdates id True
        (Page [\<lparr> res_id = Some ''A'', patron_status = Some ''declined_patron'', user_ref = None \<rparr>] [] None)
     (fst (snd (checkForUpdates id True
        (Page [\<lparr> res_id = Some ''A'', patron_status = Some ''active_patron'', user_ref = None \<rparr>] [] None)
        initial)))))))))"
  by (simp add: tick_defs atMostOneDisposition_def)

text \<open>
  Claim C2, amended. The state of a fresh start has no id both in the subscribed set
  and among the cancel or decline records, and a tick keeps it so. Subscribing or
  reactivating deletes the cancel and the decline record of the id; canceling or
  declining takes the id out of the subscribed set and deletes its reactivation record.
\<close>

theorem subscribed_exclusive_invariant:
  "subscribedExclusive initial \<and>
   (subscribedExclusive s \<longrightarrow>
      subscribedExclusive (fst (snd (checkForUpdates clock errorListener src s)))) \<and>
   (\<forall>e \<in> {Subscribed, Reactivated}.
      canceledMembers (track e m now s) (member_id m) = None \<and>
      declinedMembers (track e m now s) (member_id m) = None) \<and>
   (\<forall>e \<in> {Canceled, Declined}.
      member_id m \<notin> subscribedMembers (track e m now s) \<and>
      reactivatedMembers (track e m now s) (member_id m) = None)"
proof -
  have "subscribedExclusive initial"
    by (simp add: subscribedExclusive_def initial_def)
  moreover have "subscribedExclusive (fst (snd (checkForUpdates clock errorListener src s)))"
    if "subscribedExclusive s"
    using that unfolding subscribedExclusive_trackers
    by (rule checkForUpdates_trackers [rotated])
       (use track_subscribedExclusive in \<open>simp add: subscribedExclusive_trackers\<close>)
  ultimately show ?thesis
    by (simp add: track.simps)
qed

theorem subscribed_exclusive_invariant_witness:
  "subscribedExclusive initial \<and>
   subscribedExclusive (fst (snd (checkForUpdates id True
      (Page [\<lparr> res_id = Some ''A'', patron_status = Some ''former_patron'', user_ref = None \<rparr>] [] None)
      initial))) \<and>
   canceledMembers
     (track Subscribed \<lparr> member_id = Some ''A'', status = ''active_patron'', discordId = None \<rparr>
        0 initial) (Some ''A'') = None \<and>
   Some ''A'' \<notin> subscribedMembers
     (track Canceled \<lparr> member_id = Some ''A'', status = ''former_patron'', discordId = None \<rparr>
        0 initial)"
  using subscribed_exclusive_invariant [of initial id True
      "Page [\<lparr> res_id = Some ''A'', patron_status = Some ''former_patron'', user_ref = None \<rparr>] [] None"
      "\<lparr> member_id = Some ''A'', status = ''active_patron'', discordId = None \<rparr>" 0]
    subscribed_exclusive_invariant [of initial id True Throws
      "\<lparr> member_id = Some ''A'', status = ''former_patron'', discordId = None \<rparr>" 0]
  by simp

section \<open>What each step of a tick leaves alone\<close>

lemma statusChanges_frame [simp]:
  "lastMemberships (fst (statusChanges clk ps m t)) = lastMemberships (fst t)"
  "lastDiscordIds (fst (statusChanges clk ps m t)) = lastDiscordIds (fst t)"
  "isFirstRun (fst (statusChanges clk ps m t)) = isFirstRun (fst t)"
  "discordToMemberMap (fst (statusChanges clk ps m t)) = discordToMemberMap (fst t)"
  "connectedDiscords (fst (statusChanges clk ps m t)) = connectedDiscords (fst t)"
  "disconnectedDiscords (fst (statusChanges clk ps m t)) = disconnectedDiscords (fst t)"
  by (simp_all add: statusChanges_def Let_def track.simps)

lemma discordChanges_frame [simp]:
  "lastMemberships (fst (discordChanges clk pd m t)) = lastMemberships (fst t)"
  "lastDiscordIds (fst (discordChanges clk pd m t)) = lastDiscordIds (fst t)"
  "isFirstRun (fst (discordChanges clk pd m t)) = isFirstRun (fst t)"
  "discordToMemberMap (fst (discordChanges clk pd m t)) = discordToMemberMap (fst t)"
  "subscribedMembers (fst (discordChanges clk pd m t)) = subscribedMembers (fst t)"
  "canceledMembers (fst (discordChanges clk pd m t)) = canceledMembers (fst t)"
  "declinedMembers (fst (discordChanges clk pd m t)) = declinedMembers (fst t)"
  "reactivatedMembers (fst (discordChanges clk pd m t)) = reactivatedMembers (fst t)"
  by (simp_all add: discordChanges_def Let_def track.simps split: option.splits)

lemma track_other:
  "j \<noteq> member_id m \<Longrightarrow> (j \<in> subscribedMembers (track e m n s)) = (j \<in> subscribedMembers s)"
  "j \<noteq> member_id m \<Longrightarrow> canceledMembers (track e m n s) j = canceledMembers s j"
  "j \<noteq> member_id m \<Longrightarrow> declinedMembers (track e m n s) j = declinedMembers s j"
  "j \<noteq> member_id m \<Longrightarrow> reactivatedMembers (track e m n s) j = reactivatedMembers s j"
  "j \<noteq> member_id m \<Longrightarrow> connectedDiscords (track e m n s) j = connectedDiscords s j"
  "j \<noteq> member_id m \<Longrightarrow> disconnectedDiscords (track e m n s) j = disconnectedDiscords s j"
  by (cases e; simp add: track.simps)+

lemma statusChanges_other:
  assumes "j \<noteq> member_id m"
  shows "(j \<in> subscribedMembers (fst (statusChanges clk ps m t))) = (j \<in> subscribedMembers (fst t))"
    and "canceledMembers (fst (statusChanges clk ps m t)) j = canceledMembers (fst t) j"
    and "declinedMembers (fst (statusChanges clk ps m t)) j = declinedMembers (fst t) j"
    and "reactivatedMembers (fst (statusChanges clk ps m t)) j = reactivatedMembers (fst t) j"
  using assms by (simp_all add: statusChanges_def Let_def track_other)

lemma discordChanges_other:
  assumes "j \<noteq> member_id m"
  shows "connectedDiscords (fst (discordChanges clk pd m t)) j = connectedDiscords (fst t) j"
    and "disconnectedDiscords (fst (discordChanges clk pd m t)) j = disconnectedDiscords (fst t) j"
  using assms by (simp_all add: discordChanges_def Let_def track_other split: option.splits)

lemma processMember_frame [simp]:
  "isFirstRun (fst (processMember clk m t)) = isFirstRun (fst t)"
  "lastMemberships (fst (processMember clk m t)) =
     AList.update (member_id m) (status m) (lastMemberships (fst t))"
  "lastDiscordIds (fst (processMember clk m t)) = (lastDiscordIds (fst t))(member_id m \<mapsto> discordId m)"
  by (simp_all add: processMember_def Let_def)

lemma processMember_other:
  assumes "j \<noteq> member_id m"
  shows "(j \<in> subscribedMembers (fst (processMember clk m t))) = (j \<in> subscribedMembers (fst t))"
    and "canceledMembers (fst (processMember clk m t)) j = canceledMembers (fst t) j"
    and "declinedMembers (fst (processMember clk m t)) j = declinedMembers (fst t) j"
    and "reactivatedMembers (fst (processMember clk m t)) j = reactivatedMembers (fst t) j"
    and "connectedDiscords (fst (processMember clk m t)) j = connectedDiscords (fst t) j"
    and "disconnectedDiscords (fst (processMember clk m t)) j = disconnectedDiscords (fst t) j"
  using assms
  by (simp_all add: processMember_def Let_def statusChanges_other discordChanges_other)

lemma removeMember_frame [simp]:
  "isFirstRun (fst (removeMember clk cur i t)) = isFirstRun (fst t)"
  "discordToMemberMap (fst (removeMember clk cur i t)) = discordToMemberMap (fst t)"
  "subscribedMembers (fst (removeMember clk cur i t)) = subscribedMembers (fst t)"
  "canceledMembers (fst (removeMember clk cur i t)) = canceledMembers (fst t)"
  "declinedMembers (fst (removeMember clk cur i t)) = declinedMembers (fst t)"
  "reactivatedMembers (fst (removeMember clk cur i t)) = reactivatedMembers (fst t)"
  "lastMemberships (fst (removeMember clk cur i t)) =
     (if i \<in> cur then lastMemberships (fst t) else AList.delete i (lastMemberships (fst t)))"
  "lastDiscordIds (fst (removeMember clk cur i t)) =
     (if i \<in> cur then lastDiscordIds (fst t) else (lastDiscordIds (fst t))(i := None))"
  by (simp_all add: removeMember_def Let_def track.simps split: option.splits)

lemma removeMember_other:
  assumes "j \<noteq> i"
  shows "connectedDiscords (fst (removeMember clk cur i t)) j = connectedDiscords (fst t) j"
    and "disconnectedDiscords (fst (removeMember clk cur i t)) j = disconnectedDiscords (fst t) j"
  using assms by (simp_all add: removeMember_def Let_def track_other split: option.splits)

section \<open>The events of a tick, step by step\<close>

lemma recordBlockI:
  assumes "\<forall>e \<in> set lc. eventOf lifecycleNames (member_id m) e"
      and "\<forall>e \<in> set lk. eventOf linkageNames (member_id m) e"
  shows "recordBlock m (lc @ lk)"
proof -
  have "dropWhile (eventOf lifecycleNames (member_id m)) (lc @ lk) =
        dropWhile (eventOf lifecycleNames (member_id m)) lk"
    using assms(1) by (simp add: dropWhile_append2)
  then show ?thesis
    unfolding recordBlock_def using assms(2) set_dropWhileD by fastforce
qed

lemma recordBlock_about:
  assumes "recordBlock m b" "e \<in> set b"
  shows "eventOf UNIV (member_id m) e"
proof -
  let ?P = "eventOf lifecycleNames (member_id m)"
  have "e \<in> set (takeWhile ?P b) \<or> e \<in> set (dropWhile ?P b)"
    using assms(2) by (metis Un_iff set_append takeWhile_dropWhile_id)
  then show ?thesis
  proof
    assume "e \<in> set (takeWhile ?P b)"
    then have "?P e" by (rule set_takeWhileD [THEN conjunct2])
    then show ?thesis by (cases e) (simp_all add: eventOf_def)
  next
    assume "e \<in> set (dropWhile ?P b)"
    with assms(1) have "eventOf linkageNames (member_id m) e"
      by (simp add: recordBlock_def)
    then show ?thesis by (cases e) (simp_all add: eventOf_def)
  qed
qed

lemma statusChanges_events:
  "\<exists>lc. snd (statusChanges clk ps m t) = snd t @ lc \<and>
        (\<forall>e \<in> set lc. eventOf lifecycleNames (member_id m) e)"
  by (simp add: statusChanges_def Let_def eventOf_def lifecycleNames_def)

lemma discordChanges_events:
  "\<exists>lk. snd (discordChanges clk pd m t) = snd t @ lk \<and>
        (\<forall>e \<in> set lk. eventOf linkageNames (member_id m) e)"
  by (simp add: discordChanges_def Let_def eventOf_def linkageNames_def split: option.splits)

lemma processMember_events:
  "\<exists>b. snd (processMember clk m t) = snd t @ b \<and> recordBlock m b"
proof -
  let ?t0 = "(if truthy (discordId m)
               then ((fst t)\<lparr> discordToMemberMap :=
                        (discordToMemberMap (fst t))(the (discordId m) \<mapsto> m) \<rparr>, snd t)
               else t)"
  let ?ps = "map_of (lastMemberships (fst t)) (member_id m)"
  let ?pd = "lastDiscordIds (fst t) (member_id m)"
  let ?t1 = "statusChanges clk ?ps m ?t0"
  obtain lc where lc: "snd ?t1 = snd ?t0 @ lc" "\<forall>e \<in> set lc. eventOf lifecycleNames (member_id m) e"
    using statusChanges_events by blast
  obtain lk where lk: "snd (discordChanges clk ?pd m ?t1) = snd ?t1 @ lk"
      "\<forall>e \<in> set lk. eventOf linkageNames (member_id m) e"
    using discordChanges_events by blast
  have "snd ?t0 = snd t" by simp
  with lc lk have "snd (processMember clk m t) = snd t @ (lc @ lk)"
    by (simp add: processMember_def Let_def)
  moreover have "recordBlock m (lc @ lk)"
    using lc(2) lk(2) by (rule recordBlockI)
  ultimately show ?thesis by blast
qed

lemma fold_processMember_events:
  "\<exists>bs. snd (fold (processMember clk) C t) = snd t @ concat bs \<and> list_all2 recordBlock C bs"
proof (induction C arbitrary: t)
  case Nil
  then show ?case by simp
next
  case (Cons m C)
  obtain b where b: "snd (processMember clk m t) = snd t @ b" "recordBlock m b"
    using processMember_events by blast
  obtain bs where bs: "snd (fold (processMember clk) C (processMember clk m t)) =
      snd (processMember clk m t) @ concat bs" "list_all2 recordBlock C bs"
    using Cons.IH by blast
  have "snd (fold (processMember clk) (m # C) t) = snd t @ concat (b # bs)"
    using b(1) bs(1) by simp
  moreover have "list_all2 recordBlock (m # C) (b # bs)"
    using b(2) bs(2) by simp
  ultimately show ?case by blast
qed

lemma removeMember_events:
  "\<exists>rm. snd (removeMember clk cur i t) = snd t @ rm \<and>
        (\<forall>e \<in> set rm. eventOf {Disconnected} i e \<and> i \<notin> cur)"
  by (simp add: removeMember_def Let_def eventOf_def split: option.splits)

lemma fold_removeMember_events:
  "\<exists>rm. snd (fold (removeMember clk cur) ks t) = snd t @ rm \<and>
        (\<forall>e \<in> set rm. \<exists>i. eventOf {Disconnected} i e \<and> i \<notin> cur)"
proof (induction ks arbitrary: t)
  case Nil
  then show ?case by simp
next
  case (Cons k ks)
  obtain r where r: "snd (removeMember clk cur k t) = snd t @ r"
      "\<forall>e \<in> set r. eventOf {Disconnected} k e \<and> k \<notin> cur"
    using removeMember_events by blast
  obtain rm where rm: "snd (fold (removeMember clk cur) ks (removeMember clk cur k t)) =
      snd (removeMember clk cur k t) @ rm" "\<forall>e \<in> set rm. \<exists>i. eventOf {Disconnected} i e \<and> i \<notin> cur"
    using Cons.IH by blast
  have "snd (fold (removeMember clk cur) (k # ks) t) = snd t @ (r @ rm)"
    using r(1) rm(1) by simp
  moreover have "\<forall>e \<in> set (r @ rm). \<exists>i. eventOf {Disconnected} i e \<and> i \<notin> cur"
    using r(2) rm(2) by auto
  ultimately show ?case by blast
qed

lemma reconcile_events:
  "\<exists>bs rm. snd (reconcile clk C s) = concat bs @ rm \<and> list_all2 recordBlock C bs \<and>
      (\<forall>e \<in> set rm. \<exists>i. eventOf {Disconnected} i e \<and> i \<notin> member_id ` set C)"
proof -
  let ?t0 = "(s\<lparr> discordToMemberMap := Map.empty \<rparr>, [])"
  let ?t1 = "fold (processMember clk) C ?t0"
  obtain bs where bs: "snd ?t1 = snd ?t0 @ concat bs" "list_all2 recordBlock C bs"
    using fold_processMember_events by blast
  obtain rm where rm: "snd (fold (removeMember clk (set (map member_id C))) (map fst (lastMemberships (fst ?t1))) ?t1)
       = snd ?t1 @ rm" "\<forall>e \<in> set rm. \<exists>i. eventOf {Disconnected} i e \<and> i \<notin> set (map member_id C)"
    using fold_removeMember_events by blast
  have "snd (reconcile clk C s) = concat bs @ rm"
    using bs(1) rm(1) by (simp add: reconcile_def Let_def)
  with bs(2) rm(2) show ?thesis by auto
qed

section \<open>A failed fetch\<close>

text \<open>
  Claim C1 at a failing input. The state knows one member, active and linked to
  \<open>D1\<close>, and the request of the fetch throws. With an \<open>error\<close> listener registered,
  \<open>fetchMemberships\<close> reports the error and returns the empty list, and the tick goes on
  with it: the member counts as removed, \<open>disconnected\<close> is emitted for it, it is deleted
  from \<open>lastMemberships\<close> and \<open>lastDiscordIds\<close>, and a disconnect record is written. A
  body without a \<open>data\<close> array does the same and reports no error. Only without an
  \<open>error\<close> listener does the tick stop with the state as it was.
\<close>

theorem failed_fetch_removes_every_member:
  "checkForUpdates id True Throws
      (initial\<lparr> lastMemberships := [(Some ''A'', ''active_patron'')],
                lastDiscordIds := [Some ''A'' \<mapsto> Some ''D1''],
                isFirstRun := False \<rparr>)
   = (Resolved,
      initial\<lparr> isFirstRun := False, disconnectedDiscords := [Some ''A'' \<mapsto> ''D1''] \<rparr>,
      [ErrorEvent,
       MemberEvent Disconnected
         \<lparr> member_id = Some ''A'', status = ''active_patron'', discordId = Some ''D1'' \<rparr>])
   \<and>
   checkForUpdates id True Unexpected
      (initial\<lparr> lastMemberships := [(Some ''A'', ''active_patron'')],
                lastDiscordIds := [Some ''A'' \<mapsto> Some ''D1''],
                isFirstRun := False \<rparr>)
   = (Resolved,
      initial\<lparr> isFirstRun := False, disconnectedDiscords := [Some ''A'' \<mapsto> ''D1''] \<rparr>,
      [MemberEvent Disconnected
         \<lparr> member_id = Some ''A'', status = ''active_patron'', discordId = Some ''D1'' \<rparr>])
   \<and>
   checkForUpdates id False Throws
      (initial\<lparr> lastMemberships := [(Some ''A'', ''active_patron'')],
                lastDiscordIds := [Some ''A'' \<mapsto> Some ''D1''],
                isFirstRun := False \<rparr>)
   = (Rejected,
      initial\<lparr> lastMemberships := [(Some ''A'', ''active_patron'')],
                lastDiscordIds := [Some ''A'' \<mapsto> Some ''D1''],
                isFirstRun := False \<rparr>,
      [])"
  by (simp add: tick_defs emitAndTrack_def)

section \<open>Entities that left the source\<close>

lemma eventOf_block:
  "recordBlock m b \<Longrightarrow> j \<noteq> member_id m \<Longrightarrow> filter (eventOf names j) b = []"
proof -
  assume rb: "recordBlock m b" and ne: "j \<noteq> member_id m"
  have "\<not> eventOf names j e" if "e \<in> set b" for e
    using recordBlock_about [OF rb that] ne by (cases e) (simp_all add: eventOf_def)
  then show ?thesis by (simp add: filter_empty_conv)
qed

lemma processMember_events_other:
  assumes "j \<noteq> member_id m"
  shows "filter (eventOf names j) (snd (processMember clk m t)) = filter (eventOf names j) (snd t)"
proof -
  obtain b where "snd (processMember clk m t) = snd t @ b" "recordBlock m b"
    using processMember_events by blast
  then show ?thesis using eventOf_block [OF _ assms] by simp
qed

lemma fold_processMember_other:
  assumes "j \<notin> member_id ` set C"
  shows "filter (eventOf names j) (snd (fold (processMember clk) C t)) = filter (eventOf names j) (snd t)"
    and "map_of (lastMemberships (fst (fold (processMember clk) C t))) j = map_of (lastMemberships (fst t)) j"
    and "lastDiscordIds (fst (fold (processMember clk) C t)) j = lastDiscordIds (fst t) j"
    and "disconnectedDiscords (fst (fold (processMember clk) C t)) j = disconnectedDiscords (fst t) j"
    and "connectedDiscords (fst (fold (processMember clk) C t)) j = connectedDiscords (fst t) j"
    and "(j \<in> subscribedMembers (fst (fold (processMember clk) C t))) = (j \<in> subscribedMembers (fst t))"
  using assms
  by (induction C arbitrary: t)
     (simp_all add: processMember_events_other processMember_other update_conv')

lemma fold_removeMember_lastMemberships:
  "lastMemberships (fst (fold (removeMember clk cur) ks t)) =
     filter (\<lambda>(k, _). k \<notin> set ks - cur) (lastMemberships (fst t))"
proof (induction ks arbitrary: t)
  case Nil
  then show ?case by simp
next
  case (Cons k ks)
  show ?case
  proof (cases "k \<in> cur")
    case True
    then have "filter (\<lambda>(k', _). k' \<notin> set ks - cur) al =
        filter (\<lambda>(k', _). k' \<notin> set (k # ks) - cur) al" for al :: "(ident \<times> string) list"
      by (auto intro!: filter_cong)
    with True show ?thesis by (simp add: Cons.IH)
  next
    case False
    then have "filter (\<lambda>(k', _). k' \<notin> set ks - cur) (AList.delete k al) =
        filter (\<lambda>(k', _). k' \<notin> set (k # ks) - cur) al" for al :: "(ident \<times> string) list"
      by (auto simp: AList.delete_eq intro!: filter_cong)
    with False show ?thesis by (simp add: Cons.IH)
  qed
qed

lemma eventOf_MemberEvent [simp]:
  "eventOf names i (MemberEvent k p) \<longleftrightarrow> k \<in> names \<and> member_id p = i"
  "eventOf names i ErrorEvent \<longleftrightarrow> False"
  by (simp_all add: eventOf_def)

lemma removeMember_self:
  assumes "i \<notin> cur" "lastDiscordIds (fst t) i = Some (Some d)" "d \<noteq> []"
  shows "snd (removeMember clk cur i t) = snd t @
           (if disconnectedDiscords (fst t) i = Some d then []
            else [MemberEvent Disconnected
                    \<lparr> member_id = i,
                      status = (if truthy (map_of (lastMemberships (fst t)) i)
                               then the (map_of (lastMemberships (fst t)) i) else ''none''),
                      discordId = Some d \<rparr>])"
  using assms by (auto simp: removeMember_def Let_def hasProcessedEvent_def)

lemma removeMember_events_other:
  assumes "j \<noteq> i"
  shows "filter (eventOf names j) (snd (removeMember clk cur i t)) = filter (eventOf names j) (snd t)"
proof -
  obtain rm where "snd (removeMember clk cur i t) = snd t @ rm"
      "\<forall>e \<in> set rm. eventOf {Disconnected} i e \<and> i \<notin> cur"
    using removeMember_events by blast
  moreover from this assms have "filter (eventOf names j) rm = []"
    by (auto simp: eventOf_def filter_empty_conv split: emitted.splits)
  ultimately show ?thesis by simp
qed

lemma removeMember_gone:
  assumes "lastDiscordIds (fst t) j = None"
  shows "filter (eventOf names j) (snd (removeMember clk cur i t)) = filter (eventOf names j) (snd t)"
proof (cases "i = j")
  case True
  with assms show ?thesis by (simp add: removeMember_def Let_def)
next
  case False
  then show ?thesis using removeMember_events_other [of j i] by simp
qed

lemma fold_removeMember_gone:
  assumes "lastDiscordIds (fst t) j = None"
  shows "filter (eventOf names j) (snd (fold (removeMember clk cur) ks t)) = filter (eventOf names j) (snd t)"
  using assms
proof (induction ks arbitrary: t)
  case Nil
  then show ?case by simp
next
  case (Cons k ks)
  have "lastDiscordIds (fst (removeMember clk cur k t)) j = None"
    using Cons.prems by simp
  from Cons.IH [OF this] show ?case
    by (simp add: removeMember_gone [OF Cons.prems])
qed

lemma removeMember_keeps_other:
  assumes "j \<noteq> i"
  shows "map_of (lastMemberships (fst (removeMember clk cur i t))) j = map_of (lastMemberships (fst t)) j"
    and "lastDiscordIds (fst (removeMember clk cur i t)) j = lastDiscordIds (fst t) j"
  using assms by simp_all

lemma fold_removeMember_present:
  assumes "i \<in> set ks" "i \<notin> cur" "lastDiscordIds (fst t) i = Some (Some d)" "d \<noteq> []"
  shows "filter (eventOf UNIV i) (snd (fold (removeMember clk cur) ks t)) =
           filter (eventOf UNIV i) (snd t) @
           (if disconnectedDiscords (fst t) i = Some d then []
            else [MemberEvent Disconnected
                    \<lparr> member_id = i,
                      status = (if truthy (map_of (lastMemberships (fst t)) i)
                               then the (map_of (lastMemberships (fst t)) i) else ''none''),
                      discordId = Some d \<rparr>])"
  using assms
proof (induction ks arbitrary: t)
  case Nil
  then show ?case by simp
next
  case (Cons k ks)
  show ?case
  proof (cases "k = i")
    case True
    have gone: "lastDiscordIds (fst (removeMember clk cur i t)) i = None"
      using Cons.prems by simp
    show ?thesis
      using fold_removeMember_gone [OF gone, of UNIV clk cur ks]
            removeMember_self [OF Cons.prems(2,3,4), of clk]
      by (simp add: True)
  next
    case False
    then have "i \<in> set ks" using Cons.prems by simp
    moreover have "lastDiscordIds (fst (removeMember clk cur k t)) i = Some (Some d)"
      using False Cons.prems by simp
    ultimately have "filter (eventOf UNIV i) (snd (fold (removeMember clk cur) ks (removeMember clk cur k t))) =
           filter (eventOf UNIV i) (snd (removeMember clk cur k t)) @
           (if disconnectedDiscords (fst (removeMember clk cur k t)) i = Some d then []
            else [MemberEvent Disconnected
                    \<lparr> member_id = i,
                      status = (if truthy (map_of (lastMemberships (fst (removeMember clk cur k t))) i)
                               then the (map_of (lastMemberships (fst (removeMember clk cur k t))) i) else ''none''),
                      discordId = Some d \<rparr>])"
      using Cons.IH Cons.prems by blast
    then show ?thesis
      using False
      by (simp add: removeMember_events_other removeMember_other del: removeMember_frame(7))
         (simp add: delete_conv')
  qed
qed

lemma fold_removeMember_lastDiscordIds:
  "lastDiscordIds (fst (fold (removeMember clk cur) ks t)) i =
     (if i \<in> set ks - cur then None else lastDiscordIds (fst t) i)"
  by (induction ks arbitrary: t) auto

text \<open>
  Claim C7. An entity that is a key of \<open>lastMemberships\<close>, has a last-known linkage
  \<open>d\<close> (a non-empty string, as every linkage the fetch produces is) and is absent from
  the batch: the only event of the tick about it is one \<open>disconnected\<close> carrying \<open>d\<close>
  and its last-known status, unless the disconnect record of the entity already is
  \<open>d\<close>, in which case the tick emits nothing about it; and after the tick the entity is
  in neither \<open>lastMemberships\<close> nor \<open>lastDiscordIds\<close>.
\<close>

theorem removed_member_disconnect:
  assumes "i \<in> fst ` set (lastMemberships s)"
      and "lastDiscordIds s i = Some (Some d)" and "d \<noteq> []"
      and "i \<notin> member_id ` set batch"
  shows "filter (eventOf UNIV i) (snd (reconcile clock batch s)) =
           (if disconnectedDiscords s i = Some d then []
            else [MemberEvent Disconnected
                    \<lparr> member_id = i,
                      status = (if truthy (map_of (lastMemberships s) i)
                                then the (map_of (lastMemberships s) i) else ''none''),
                      discordId = Some d \<rparr>]) \<and>
         i \<notin> fst ` set (lastMemberships (fst (reconcile clock batch s))) \<and>
         lastDiscordIds (fst (reconcile clock batch s)) i = None"
proof -
  let ?t0 = "(s\<lparr> discordToMemberMap := Map.empty \<rparr>, [])"
  let ?t1 = "fold (processMember clock) batch ?t0"
  let ?cur = "set (map member_id batch)"
  let ?ks = "map fst (lastMemberships (fst ?t1))"
  let ?t2 = "fold (removeMember clock ?cur) ?ks ?t1"
  have out: "i \<notin> ?cur" using assms(4) by simp
  have ev1: "filter (eventOf UNIV i) (snd ?t1) = []"
    using fold_processMember_other(1) [OF assms(4), of UNIV clock ?t0] by simp
  have st1: "map_of (lastMemberships (fst ?t1)) i = map_of (lastMemberships s) i"
    using fold_processMember_other(2) [OF assms(4), of clock ?t0] by simp
  have ld1: "lastDiscordIds (fst ?t1) i = Some (Some d)"
    using fold_processMember_other(3) [OF assms(4), of clock ?t0] assms(2) by simp
  have dd1: "disconnectedDiscords (fst ?t1) i = disconnectedDiscords s i"
    using fold_processMember_other(4) [OF assms(4), of clock ?t0] by simp
  have "map_of (lastMemberships s) i \<noteq> None"
    using assms(1) by (simp add: map_of_eq_None_iff)
  then have key: "i \<in> set ?ks"
    using st1 by (metis map_of_eq_None_iff set_map)
  have "filter (eventOf UNIV i) (snd ?t2) =
           (if disconnectedDiscords s i = Some d then []
            else [MemberEvent Disconnected
                    \<lparr> member_id = i,
                      status = (if truthy (map_of (lastMemberships s) i)
                                then the (map_of (lastMemberships s) i) else ''none''),
                      discordId = Some d \<rparr>])"
    using fold_removeMember_present [OF key out ld1 assms(3), of clock] ev1 st1 dd1 by simp
  moreover have "i \<notin> fst ` set (lastMemberships (fst ?t2))"
    using key out by (force simp: fold_removeMember_lastMemberships)
  moreover have "lastDiscordIds (fst ?t2) i = None"
    using key out by (simp add: fold_removeMember_lastDiscordIds)
  ultimately show ?thesis
    by (simp add: reconcile_def Let_def)
qed

theorem removed_member_disconnect_witness:
  "Some ''A'' \<in> fst ` set [(Some ''A'', ''active_patron''), (Some ''B'', ''active_patron'')] \<and>
   [Some ''A'' \<mapsto> Some ''D1''] (Some ''A'') = Some (Some ''D1'') \<and> ''D1'' \<noteq> [] \<and>
   Some ''A'' \<notin> member_id ` set [\<lparr> member_id = Some ''B'', status = ''active_patron'', discordId = None \<rparr>] \<and>
   filter (eventOf UNIV (Some ''A''))
     (snd (reconcile id [\<lparr> member_id = Some ''B'', status = ''active_patron'', discordId = None \<rparr>]
        (initial\<lparr> lastMemberships := [(Some ''A'', ''active_patron''), (Some ''B'', ''active_patron'')],
                  lastDiscordIds := [Some ''A'' \<mapsto> Some ''D1''] \<rparr>)))
   = [MemberEvent Disconnected
        \<lparr> member_id = Some ''A'', status = ''active_patron'', discordId = Some ''D1'' \<rparr>]"
  using removed_member_disconnect [of "Some ''A''"
      "initial\<lparr> lastMemberships := [(Some ''A'', ''active_patron''), (Some ''B'', ''active_patron'')],
                lastDiscordIds := [Some ''A'' \<mapsto> Some ''D1''] \<rparr>"
      "''D1''" "[\<lparr> member_id = Some ''B'', status = ''active_patron'', discordId = None \<rparr>]" id]
  by (simp add: initial_def truthy_def)

section \<open>Records without an id\<close>

lemma fold_processMember_lastMemberships:
  "map_of (lastMemberships (fst (fold (processMember clk) C t))) =
     map_of (lastMemberships (fst t)) ++ map_of (rev (map (\<lambda>m. (member_id m, status m)) C))"
  by (induction C arbitrary: t) (simp_all add: update_conv')

lemma fold_processMember_lastDiscordIds:
  "lastDiscordIds (fst (fold (processMember clk) C t)) =
     lastDiscordIds (fst t) ++ map_of (rev (map (\<lambda>m. (member_id m, discordId m)) C))"
  by (induction C arbitrary: t) simp_all

lemma map_of_filter_key:
  "map_of (filter (\<lambda>(k, _). Q k) al) x = (if Q x then map_of al x else None)"
  by (induction al) auto

lemma dom_batch_pairs:
  "dom (map_of (rev (map (\<lambda>m. (member_id m, f m)) C))) = member_id ` set C"
  by (simp add: dom_map_of_conv_image_fst image_image)

lemma reconcile_last_maps:
  "map_of (lastMemberships (fst (reconcile clock batch s))) =
     map_of (rev (map (\<lambda>m. (member_id m, status m)) batch)) \<and>
   (\<forall>m \<in> set batch.
      lastDiscordIds (fst (reconcile clock batch s)) (member_id m) =
        map_of (rev (map (\<lambda>m. (member_id m, discordId m)) batch)) (member_id m))"
proof -
  let ?t0 = "(s\<lparr> discordToMemberMap := Map.empty \<rparr>, [])"
  let ?t1 = "fold (processMember clock) batch ?t0"
  let ?cur = "set (map member_id batch)"
  let ?ks = "map fst (lastMemberships (fst ?t1))"
  let ?t2 = "fold (removeMember clock ?cur) ?ks ?t1"
  let ?mS = "map_of (rev (map (\<lambda>m. (member_id m, status m)) batch))"
  let ?mD = "map_of (rev (map (\<lambda>m. (member_id m, discordId m)) batch))"
  have "map_of (lastMemberships (fst ?t2)) x = ?mS x" for x
  proof (cases "x \<in> ?cur")
    case True
    then have "x \<in> dom ?mS" using dom_batch_pairs [of status batch] by simp
    then show ?thesis
      using True
      by (auto simp: fold_removeMember_lastMemberships map_of_filter_key
            fold_processMember_lastMemberships map_add_dom_app_simps)
  next
    case False
    then have no: "?mS x = None" using dom_batch_pairs [of status batch] by auto
    show ?thesis
    proof (cases "x \<in> set ?ks")
      case True
      with False no show ?thesis
        by (simp add: fold_removeMember_lastMemberships map_of_filter_key)
    next
      case False
      then have "map_of (lastMemberships (fst ?t1)) x = None"
        by (simp add: map_of_eq_None_iff)
      with False no show ?thesis
        by (simp add: fold_removeMember_lastMemberships map_of_filter_key)
    qed
  qed
  then have "map_of (lastMemberships (fst ?t2)) = ?mS" by (rule ext)
  moreover have "lastDiscordIds (fst ?t2) (member_id m) = ?mD (member_id m)" if "m \<in> set batch" for m
  proof -
    from that have "member_id m \<in> dom ?mD" using dom_batch_pairs [of discordId batch] by simp
    with that show ?thesis
      by (auto simp: fold_removeMember_lastDiscordIds fold_processMember_lastDiscordIds
            map_add_dom_app_simps)
  qed
  ultimately show ?thesis
    by (simp add: reconcile_def Let_def)
qed

text \<open>
  Claim C8, amended. A record without an id is not skipped: the mapping of the fetch
  hands the missing id on as it is, and the reconciliation treats the record like any
  other, under the id \<open>undefined\<close>. The batch is never aborted and no error is raised
  (\<open>reconcile\<close> is a total function): after the tick \<open>lastMemberships\<close> maps exactly
  the ids of the batch, \<open>undefined\<close> included, each to the status of its last record in
  the batch, and \<open>lastDiscordIds\<close> maps each of them to the linkage of that record.
\<close>

theorem malformed_record_is_reconciled:
  "member_id (toMembership allIncluded r) = res_id r \<and>
   map_of (lastMemberships (fst (reconcile clock batch s))) =
     map_of (rev (map (\<lambda>m. (member_id m, status m)) batch)) \<and>
   (\<forall>m \<in> set batch.
      lastDiscordIds (fst (reconcile clock batch s)) (member_id m) =
        map_of (rev (map (\<lambda>m. (member_id m, discordId m)) batch)) (member_id m))"
  using reconcile_last_maps [of clock batch s]
  by (simp add: toMembership_def)

theorem malformed_record_is_reconciled_witness:
  "member_id (toMembership []
      \<lparr> res_id = None, patron_status = Some ''active_patron'', user_ref = None \<rparr>) = None \<and>
   map_of (lastMemberships (fst (reconcile id
      [\<lparr> member_id = None, status = ''active_patron'', discordId = None \<rparr>,
       \<lparr> member_id = Some ''B'', status = ''former_patron'', discordId = Some ''D2'' \<rparr>] initial))) None
     = Some ''active_patron'' \<and>
   lastDiscordIds (fst (reconcile id
      [\<lparr> member_id = None, status = ''active_patron'', discordId = None \<rparr>,
       \<lparr> member_id = Some ''B'', status = ''former_patron'', discordId = Some ''D2'' \<rparr>] initial))
      (Some ''B'') = Some (Some ''D2'')"
  using malformed_record_is_reconciled [of "[]" "\<lparr> res_id = None, patron_status = Some ''active_patron'', user_ref = None \<rparr>"
      id "[\<lparr> member_id = None, status = ''active_patron'', discordId = None \<rparr>,
       \<lparr> member_id = Some ''B'', status = ''former_patron'', discordId = Some ''D2'' \<rparr>]" initial]
  by simp

text \<open>
  Claim C8 fails as stated: nothing in \<open>fetchMemberships\<close> or \<open>checkForUpdates\<close> tests
  \<open>member.id\<close>. A resource without an id becomes a record whose id is \<open>undefined\<close>, and
  the tick reconciles it under that key: here it emits \<open>subscribed\<close> for it and enters
  it into \<open>lastMemberships\<close>, \<open>lastDiscordIds\<close> and \<open>subscribedMembers\<close>.
\<close>

theorem malformed_record_counterexample:
  "checkForUpdates id True
     (Page [\<lparr> res_id = None, patron_status = Some ''active_patron'', user_ref = None \<rparr>] [] None)
     (initial\<lparr> isFirstRun := False \<rparr>)
   = (Resolved,
      initial\<lparr> isFirstRun := False,
                lastMemberships := [(None, ''active_patron'')],
                lastDiscordIds := [None \<mapsto> None],
                subscribedMembers := {None} \<rparr>,
      [MemberEvent Subscribed \<lparr> member_id = None, status = ''active_patron'', discordId = None \<rparr>])"
  by (simp add: tick_defs emitAndTrack_def)

section \<open>The \<open>subscribed\<close> event of a new member\<close>

lemma toMembership_wellformed:
  "status (toMembership allIncluded r) \<noteq> []"
  "discordId (toMembership allIncluded r) \<noteq> Some []"
  by (auto simp: toMembership_def truthy_def Let_def split: option.splits)

lemma statusChanges_new:
  assumes "\<not> truthy ps" "\<not> isFirstRun (fst t)" "member_id m \<notin> subscribedMembers (fst t)"
  shows "snd (statusChanges clk ps m t) = snd t @ [MemberEvent Subscribed m]"
    and "member_id m \<in> subscribedMembers (fst (statusChanges clk ps m t))"
  using assms by (simp_all add: statusChanges_def hasProcessedEvent_def track.simps)

lemma statusChanges_known:
  assumes "truthy ps"
  shows "filter (eventOf {Subscribed} j) (snd (statusChanges clk ps m t)) =
         filter (eventOf {Subscribed} j) (snd t)"
  using assms by (simp add: statusChanges_def Let_def)

lemma filter_eventOf_disjoint:
  assumes "\<forall>e \<in> set es. \<exists>i. eventOf A i e" and "A \<inter> B = {}"
  shows "filter (eventOf B j) es = []"
  unfolding filter_empty_conv
proof
  fix e assume "e \<in> set es"
  with assms(1) obtain i where "eventOf A i e" by blast
  with assms(2) show "\<not> eventOf B j e"
    by (cases e) auto
qed

lemma discordChanges_no_lifecycle:
  "filter (eventOf lifecycleNames j) (snd (discordChanges clk pd m t)) =
   filter (eventOf lifecycleNames j) (snd t)"
proof -
  obtain lk where lk: "snd (discordChanges clk pd m t) = snd t @ lk"
      "\<forall>e \<in> set lk. eventOf linkageNames (member_id m) e"
    using discordChanges_events by blast
  have "filter (eventOf lifecycleNames j) lk = []"
    by (rule filter_eventOf_disjoint [where A = linkageNames])
       (use lk(2) in \<open>auto simp: lifecycleNames_def linkageNames_def\<close>)
  with lk(1) show ?thesis by simp
qed

lemma lifecycle_subscribed:
  "filter (eventOf lifecycleNames j) es = filter (eventOf lifecycleNames j) es' \<Longrightarrow>
   filter (eventOf {Subscribed} j) es = filter (eventOf {Subscribed} j) es'"
proof -
  assume a: "filter (eventOf lifecycleNames j) es = filter (eventOf lifecycleNames j) es'"
  have imp: "eventOf {Subscribed} j e \<Longrightarrow> eventOf lifecycleNames j e" for e
    by (cases e) (simp_all add: lifecycleNames_def)
  have "filter (eventOf {Subscribed} j) (filter (eventOf lifecycleNames j) xs) =
        filter (eventOf {Subscribed} j) xs" for xs
    unfolding filter_filter by (rule filter_cong [OF refl]) (use imp in blast)
  with a show ?thesis by metis
qed

lemmas discordChanges_no_subscribed = lifecycle_subscribed [OF discordChanges_no_lifecycle]

lemma processMember_new:
  assumes "\<not> truthy (map_of (lastMemberships (fst t)) (member_id m))" "\<not> isFirstRun (fst t)"
      and "member_id m \<notin> subscribedMembers (fst t)"
  shows "filter (eventOf {Subscribed} (member_id m)) (snd (processMember clk m t)) =
         filter (eventOf {Subscribed} (member_id m)) (snd t) @ [MemberEvent Subscribed m]"
    and "member_id m \<in> subscribedMembers (fst (processMember clk m t))"
proof -
  let ?t0 = "(if truthy (discordId m)
               then ((fst t)\<lparr> discordToMemberMap :=
                        (discordToMemberMap (fst t))(the (discordId m) \<mapsto> m) \<rparr>, snd t)
               else t)"
  let ?ps = "map_of (lastMemberships (fst t)) (member_id m)"
  have a: "\<not> isFirstRun (fst ?t0)" "member_id m \<notin> subscribedMembers (fst ?t0)" "snd ?t0 = snd t"
    using assms by simp_all
  from statusChanges_new [OF assms(1) a(1,2), of clk] a(3)
  show "filter (eventOf {Subscribed} (member_id m)) (snd (processMember clk m t)) =
         filter (eventOf {Subscribed} (member_id m)) (snd t) @ [MemberEvent Subscribed m]"
    and "member_id m \<in> subscribedMembers (fst (processMember clk m t))"
    by (simp_all add: processMember_def Let_def discordChanges_no_subscribed)
qed

lemma processMember_known:
  assumes "truthy (map_of (lastMemberships (fst t)) (member_id m))"
  shows "filter (eventOf {Subscribed} j) (snd (processMember clk m t)) =
         filter (eventOf {Subscribed} j) (snd t)"
  using assms
  by (simp add: processMember_def Let_def discordChanges_no_subscribed statusChanges_known)

lemma fold_processMember_isFirstRun [simp]:
  "isFirstRun (fst (fold (processMember clk) C t)) = isFirstRun (fst t)"
  by (induction C arbitrary: t) simp_all

lemma fold_processMember_known:
  assumes "truthy (map_of (lastMemberships (fst t)) i)"
      and "\<forall>m \<in> set C. member_id m = i \<longrightarrow> status m \<noteq> []"
  shows "filter (eventOf {Subscribed} i) (snd (fold (processMember clk) C t)) =
         filter (eventOf {Subscribed} i) (snd t)"
  using assms
proof (induction C arbitrary: t)
  case Nil
  then show ?case by simp
next
  case (Cons m C)
  have step: "filter (eventOf {Subscribed} i) (snd (processMember clk m t)) =
         filter (eventOf {Subscribed} i) (snd t)"
  proof (cases "member_id m = i")
    case True
    with Cons.prems(1) show ?thesis by (simp add: processMember_known)
  next
    case False
    then show ?thesis by (simp add: processMember_events_other)
  qed
  have "truthy (map_of (lastMemberships (fst (processMember clk m t))) i)"
    using Cons.prems by (auto simp: update_conv' truthy_def)
  from Cons.IH [OF this] Cons.prems(2) step show ?case by simp
qed

lemma fold_processMember_new:
  assumes "map_of (lastMemberships (fst t)) i = None" "\<not> isFirstRun (fst t)"
      and "i \<notin> subscribedMembers (fst t)" "i \<in> member_id ` set C"
      and "\<forall>m \<in> set C. member_id m = i \<longrightarrow> status m \<noteq> []"
  shows "length (filter (eventOf {Subscribed} i) (snd (fold (processMember clk) C t))) =
         Suc (length (filter (eventOf {Subscribed} i) (snd t))) \<and>
         (length (filter (\<lambda>m. member_id m = i) C) = 1 \<longrightarrow>
            i \<in> subscribedMembers (fst (fold (processMember clk) C t)))"
  using assms
proof (induction C arbitrary: t)
  case Nil
  then show ?case by simp
next
  case (Cons m C)
  show ?case
  proof (cases "member_id m = i")
    case True
    have nt: "\<not> truthy (map_of (lastMemberships (fst t)) (member_id m))"
      using Cons.prems(1) True by (simp add: truthy_def)
    have ns: "member_id m \<notin> subscribedMembers (fst t)" using Cons.prems(3) True by simp
    note new = processMember_new [OF nt Cons.prems(2) ns, of clk]
    have "truthy (map_of (lastMemberships (fst (processMember clk m t))) i)"
      using Cons.prems(5) True by (simp add: update_conv' truthy_def)
    then have "filter (eventOf {Subscribed} i) (snd (fold (processMember clk) C (processMember clk m t))) =
         filter (eventOf {Subscribed} i) (snd (processMember clk m t))"
      using Cons.prems(5) by (intro fold_processMember_known) simp_all
    moreover have "i \<in> subscribedMembers (fst (fold (processMember clk) C (processMember clk m t)))"
      if "i \<notin> member_id ` set C"
      using fold_processMember_other(6) [OF that, of clk "processMember clk m t"] new(2) True
      by simp
    moreover have "i \<notin> member_id ` set C" if "length (filter (\<lambda>m. member_id m = i) (m # C)) = 1"
      using that True by (auto simp: filter_empty_conv)
    ultimately show ?thesis using new(1) True by simp
  next
    case False
    then have "map_of (lastMemberships (fst (processMember clk m t))) i = None"
      "\<not> isFirstRun (fst (processMember clk m t))"
      "i \<notin> subscribedMembers (fst (processMember clk m t))" "i \<in> member_id ` set C"
      "\<forall>m \<in> set C. member_id m = i \<longrightarrow> status m \<noteq> []"
      using Cons.prems by (auto simp: update_conv' processMember_other)
    from Cons.IH [OF this] False show ?thesis
      by (simp add: processMember_events_other)
  qed
qed

lemma fold_removeMember_subscribed:
  "subscribedMembers (fst (fold (removeMember clk cur) ks t)) = subscribedMembers (fst t)"
  "isFirstRun (fst (fold (removeMember clk cur) ks t)) = isFirstRun (fst t)"
  by (induction ks arbitrary: t) simp_all

lemma fold_removeMember_no_lifecycle:
  "filter (eventOf lifecycleNames j) (snd (fold (removeMember clk cur) ks t)) =
   filter (eventOf lifecycleNames j) (snd t)"
proof -
  obtain rm where rm: "snd (fold (removeMember clk cur) ks t) = snd t @ rm"
     "\<forall>e \<in> set rm. \<exists>i. eventOf {Disconnected} i e \<and> i \<notin> cur"
    using fold_removeMember_events by blast
  have "filter (eventOf lifecycleNames j) rm = []"
    by (rule filter_eventOf_disjoint [where A = "{Disconnected}"])
       (use rm(2) in \<open>auto simp: lifecycleNames_def\<close>)
  with rm(1) show ?thesis by simp
qed

lemmas fold_removeMember_no_subscribed = lifecycle_subscribed [OF fold_removeMember_no_lifecycle]

lemma statusChanges_already_subscribed:
  assumes "\<not> truthy ps" "member_id m \<in> subscribedMembers (fst t)"
  shows "statusChanges clk ps m t = t"
  using assms by (simp add: statusChanges_def hasProcessedEvent_def)

lemma processMember_settled:
  assumes "i \<in> subscribedMembers (fst t) \<or> truthy (map_of (lastMemberships (fst t)) i)"
  shows "filter (eventOf {Subscribed} i) (snd (processMember clk m t)) =
         filter (eventOf {Subscribed} i) (snd t)"
proof (cases "member_id m = i")
  case False
  then show ?thesis by (simp add: processMember_events_other)
next
  case True
  show ?thesis
  proof (cases "truthy (map_of (lastMemberships (fst t)) i)")
    case True
    with \<open>member_id m = i\<close> show ?thesis by (simp add: processMember_known)
  next
    case False
    let ?t0 = "(if truthy (discordId m)
               then ((fst t)\<lparr> discordToMemberMap :=
                        (discordToMemberMap (fst t))(the (discordId m) \<mapsto> m) \<rparr>, snd t)
               else t)"
    have "member_id m \<in> subscribedMembers (fst ?t0)"
      using assms False \<open>member_id m = i\<close> by simp
    with False \<open>member_id m = i\<close>
    have "statusChanges clk (map_of (lastMemberships (fst t)) (member_id m)) m ?t0 = ?t0"
      by (intro statusChanges_already_subscribed) simp_all
    moreover have "snd ?t0 = snd t" by simp
    ultimately show ?thesis
      by (simp add: processMember_def Let_def discordChanges_no_subscribed)
  qed
qed

lemma fold_processMember_settled:
  assumes "i \<in> subscribedMembers (fst t) \<or> truthy (map_of (lastMemberships (fst t)) i)"
      and "\<forall>m \<in> set C. member_id m = i \<longrightarrow> status m \<noteq> []"
  shows "filter (eventOf {Subscribed} i) (snd (fold (processMember clk) C t)) =
         filter (eventOf {Subscribed} i) (snd t)"
  using assms
proof (induction C arbitrary: t)
  case Nil
  then show ?case by simp
next
  case (Cons m C)
  have "i \<in> subscribedMembers (fst (processMember clk m t)) \<or>
        truthy (map_of (lastMemberships (fst (processMember clk m t))) i)"
  proof (cases "member_id m = i")
    case True
    with Cons.prems(2) show ?thesis by (simp add: update_conv' truthy_def)
  next
    case False
    with Cons.prems(1) show ?thesis by (simp add: update_conv' processMember_other)
  qed
  from Cons.IH [OF this] Cons.prems(2) processMember_settled [OF Cons.prems(1), of clk m]
  show ?case by simp
qed

text \<open>
  Claim C4, amended. The records of id \<open>i\<close> in the batch carry a status as the fetch
  produces it (never empty). When \<open>i\<close> is no key of \<open>lastMemberships\<close>, is not in
  \<open>subscribedMembers\<close> and has a record in the batch, on a tick that is not the first
  run, the tick emits exactly one \<open>subscribed\<close> event for \<open>i\<close>, and when the batch
  holds one record of \<open>i\<close>, \<open>i\<close> is in \<open>subscribedMembers\<close> after the tick. When \<open>i\<close>
  is already in \<open>subscribedMembers\<close>, the tick emits no \<open>subscribed\<close> event for \<open>i\<close>.
\<close>

theorem subscribed_once_for_new_member:
  assumes "\<forall>m \<in> set batch. member_id m = i \<longrightarrow> status m \<noteq> []"
  shows "(\<not> isFirstRun s \<and> i \<notin> fst ` set (lastMemberships s) \<and>
          i \<notin> subscribedMembers s \<and> i \<in> member_id ` set batch \<longrightarrow>
            length (filter (eventOf {Subscribed} i) (snd (reconcile clock batch s))) = 1 \<and>
            (length (filter (\<lambda>m. member_id m = i) batch) = 1 \<longrightarrow>
               i \<in> subscribedMembers (fst (reconcile clock batch s)))) \<and>
         (i \<in> subscribedMembers s \<longrightarrow>
            filter (eventOf {Subscribed} i) (snd (reconcile clock batch s)) = [])"
proof -
  let ?t0 = "(s\<lparr> discordToMemberMap := Map.empty \<rparr>, [])"
  have new: "length (filter (eventOf {Subscribed} i) (snd (reconcile clock batch s))) = 1 \<and>
            (length (filter (\<lambda>m. member_id m = i) batch) = 1 \<longrightarrow>
               i \<in> subscribedMembers (fst (reconcile clock batch s)))"
    if a: "\<not> isFirstRun s" "i \<notin> fst ` set (lastMemberships s)"
          "i \<notin> subscribedMembers s" "i \<in> member_id ` set batch"
  proof -
    have "map_of (lastMemberships (fst ?t0)) i = None"
      using a(2) by (simp add: map_of_eq_None_iff)
    moreover have "\<not> isFirstRun (fst ?t0)" "i \<notin> subscribedMembers (fst ?t0)"
      using a(1,3) by simp_all
    ultimately show ?thesis
      using fold_processMember_new [OF _ _ _ a(4) assms, of ?t0 clock]
      by (simp add: reconcile_def Let_def fold_removeMember_no_subscribed fold_removeMember_subscribed)
  qed
  have known: "filter (eventOf {Subscribed} i) (snd (reconcile clock batch s)) = []"
    if "i \<in> subscribedMembers s"
  proof -
    have "i \<in> subscribedMembers (fst ?t0) \<or> truthy (map_of (lastMemberships (fst ?t0)) i)"
      using that by simp
    from fold_processMember_settled [OF this assms, of clock]
    show ?thesis
      by (simp add: reconcile_def Let_def fold_removeMember_no_subscribed)
  qed
  from new known show ?thesis by blast
qed

theorem subscribed_once_for_new_member_witness:
  "length (filter (eventOf {Subscribed} (Some ''A''))
      (snd (reconcile id [\<lparr> member_id = Some ''A'', status = ''active_patron'', discordId = None \<rparr>]
          (initial\<lparr> isFirstRun := False \<rparr>)))) = 1 \<and>
   Some ''A'' \<in> subscribedMembers (fst (reconcile id
          [\<lparr> member_id = Some ''A'', status = ''active_patron'', discordId = None \<rparr>]
          (initial\<lparr> isFirstRun := False \<rparr>))) \<and>
   filter (eventOf {Subscribed} (Some ''A''))
      (snd (reconcile id [\<lparr> member_id = Some ''A'', status = ''active_patron'', discordId = None \<rparr>]
          (initial\<lparr> isFirstRun := False, subscribedMembers := {Some ''A''} \<rparr>))) = []"
  using subscribed_once_for_new_member [of "[\<lparr> member_id = Some ''A'', status = ''active_patron'', discordId = None \<rparr>]"
       "Some ''A''" "initial\<lparr> isFirstRun := False \<rparr>" id]
    subscribed_once_for_new_member [of "[\<lparr> member_id = Some ''A'', status = ''active_patron'', discordId = None \<rparr>]"
       "Some ''A''" "initial\<lparr> isFirstRun := False, subscribedMembers := {Some ''A''} \<rparr>" id]
  by (simp add: initial_def)

lemmas step_defs = processMember_def statusChanges_def discordChanges_def removeMember_def
  hasProcessedEvent_def truthy_def initial_def track.simps

lemma reconcile_by_steps:
  assumes "fold (processMember clock) batch (s\<lparr> discordToMemberMap := Map.empty \<rparr>, []) = t1"
      and "fold (removeMember clock (set (map member_id batch))) (map fst (lastMemberships (fst t1))) t1 = t2"
  shows "reconcile clock batch s = ((fst t2)\<lparr> isFirstRun := False \<rparr>, snd t2)"
  using assms by (simp add: reconcile_def Let_def)

text \<open>
  Claim C4 fails as stated. An id that is already in \<open>subscribedMembers\<close> (an entity
  that left the source and came back keeps its entry) gets no \<open>subscribed\<close> event: the
  guard \<open>hasProcessedEvent\<close> suppresses it. And when the batch holds a second record
  of the id with status former, the id is taken out of \<open>subscribedMembers\<close> again in
  the same tick.
\<close>

theorem subscribed_counterexample:
  "snd (reconcile id [\<lparr> member_id = Some ''A'', status = ''active_patron'', discordId = None \<rparr>]
          (initial\<lparr> isFirstRun := False, subscribedMembers := {Some ''A''} \<rparr>)) = [] \<and>
   Some ''A'' \<notin> subscribedMembers (fst (reconcile id
          [\<lparr> member_id = Some ''A'', status = ''active_patron'', discordId = None \<rparr>,
           \<lparr> member_id = Some ''A'', status = ''former_patron'', discordId = None \<rparr>]
          (initial\<lparr> isFirstRun := False \<rparr>)))"
proof -
  let ?a = "\<lparr> member_id = Some ''A'', status = ''active_patron'', discordId = None \<rparr>"
  let ?f = "\<lparr> member_id = Some ''A'', status = ''former_patron'', discordId = None \<rparr>"
  let ?s1 = "initial\<lparr> isFirstRun := False, subscribedMembers := {Some ''A''},
               lastMemberships := [(Some ''A'', ''active_patron'')],
               lastDiscordIds := [Some ''A'' \<mapsto> None] \<rparr>"
  let ?s2 = "initial\<lparr> isFirstRun := False,
               lastMemberships := [(Some ''A'', ''former_patron'')],
               lastDiscordIds := [Some ''A'' \<mapsto> None],
               canceledMembers := [Some ''A'' \<mapsto> 1] \<rparr>"
  have known: "processMember id ?a (initial\<lparr> isFirstRun := False, subscribedMembers := {Some ''A''},
                   discordToMemberMap := Map.empty \<rparr>, []) = (?s1, [])"
    by (simp add: step_defs)
  have new: "processMember id ?a (initial\<lparr> isFirstRun := False, discordToMemberMap := Map.empty \<rparr>, [])
               = (?s1, [MemberEvent Subscribed ?a])"
    by (simp add: step_defs)
  have former: "processMember id ?f (?s1, [MemberEvent Subscribed ?a])
               = (?s2, [MemberEvent Subscribed ?a, MemberEvent Canceled ?f])"
    by (simp add: step_defs)
  have "reconcile id [?a] (initial\<lparr> isFirstRun := False, subscribedMembers := {Some ''A''} \<rparr>) = (?s1, [])"
    by (subst reconcile_by_steps [where ?t1.0 = "(?s1, [])" and ?t2.0 = "(?s1, [])"])
       (simp_all add: known removeMember_def)
  moreover
  have "reconcile id [?a, ?f] (initial\<lparr> isFirstRun := False \<rparr>)
          = (?s2, [MemberEvent Subscribed ?a, MemberEvent Canceled ?f])"
    by (subst reconcile_by_steps [where ?t1.0 = "(?s2, [MemberEvent Subscribed ?a, MemberEvent Canceled ?f])"
          and ?t2.0 = "(?s2, [MemberEvent Subscribed ?a, MemberEvent Canceled ?f])"])
       (simp_all add: new former removeMember_def)
  ultimately show ?thesis by (simp add: initial_def)
qed

section \<open>The first run\<close>

lemma linkageView_update [simp]:
  "linkageView (s\<lparr>discordToMemberMap := d\<rparr>) = linkageView s"
  "linkageView (s\<lparr>isFirstRun := b\<rparr>) = linkageView s"
  by (simp_all add: linkageView_def)

lemma linkageView_track_lifecycle:
  "e \<in> lifecycleNames \<Longrightarrow> linkageView (track e m n s) = linkageView s"
  by (cases e) (simp_all add: linkageView_def lifecycleNames_def track.simps)

lemma linkageView_track_cong:
  "linkageView s = linkageView s' \<Longrightarrow> linkageView (track e m n s) = linkageView (track e m n' s')"
  by (cases e) (simp_all add: linkageView_def track.simps)

lemma hasProcessedEvent_cong:
  "linkageView s = linkageView s' \<Longrightarrow> e \<in> linkageNames \<Longrightarrow>
   hasProcessedEvent e m s = hasProcessedEvent e m s'"
  by (cases e) (simp_all add: linkageView_def linkageNames_def hasProcessedEvent_def)

lemma statusChanges_first_run:
  assumes "isFirstRun (fst t)" "\<not> isFirstRun (fst t')" "snd t = filter notSubscribed (snd t')"
      and "linkageView (fst t) = linkageView (fst t')"
  shows "snd (statusChanges clk ps m t) = filter notSubscribed (snd (statusChanges clk' ps m t'))"
    and "linkageView (fst (statusChanges clk ps m t)) = linkageView (fst (statusChanges clk' ps m t'))"
  using assms
  by (auto simp: statusChanges_def Let_def linkageView_track_lifecycle lifecycleNames_def)

lemma emit_linkage_cong:
  assumes "snd t = filter notSubscribed (snd t')" "linkageView (fst t) = linkageView (fst t')"
      and "e \<noteq> Subscribed"
  shows "snd (emitAndTrack clk e m t) = filter notSubscribed (snd (emitAndTrack clk' e m t'))"
    and "linkageView (fst (emitAndTrack clk e m t)) = linkageView (fst (emitAndTrack clk' e m t'))"
  using assms by (simp_all add: linkageView_track_cong)

lemma discordChanges_first_run:
  assumes "snd t = filter notSubscribed (snd t')" "linkageView (fst t) = linkageView (fst t')"
  shows "snd (discordChanges clk pd m t) = filter notSubscribed (snd (discordChanges clk' pd m t')) \<and>
         linkageView (fst (discordChanges clk pd m t)) = linkageView (fst (discordChanges clk' pd m t'))"
proof -
  have hp: "hasProcessedEvent e x (fst u) = hasProcessedEvent e x (fst u')"
    if "linkageView (fst u) = linkageView (fst u')" "e \<in> linkageNames" for e x u u'
    using that by (rule hasProcessedEvent_cong)
  have D: "Disconnected \<in> linkageNames" "Connected \<in> linkageNames"
    by (simp_all add: linkageNames_def)
  define dm where "dm p = m\<lparr> discordId := Some p \<rparr>" for p
  define disc where "disc p u = (if \<not> hasProcessedEvent Disconnected (dm p) (fst u)
             then emitAndTrack clk Disconnected (dm p) u else u)" for p u
  define disc' where "disc' p u = (if \<not> hasProcessedEvent Disconnected (dm p) (fst u)
             then emitAndTrack clk' Disconnected (dm p) u else u)" for p u
  define conn where "conn u = (if \<not> hasProcessedEvent Connected m (fst u)
             then emitAndTrack clk Connected m u else u)" for u
  define conn' where "conn' u = (if \<not> hasProcessedEvent Connected m (fst u)
             then emitAndTrack clk' Connected m u else u)" for u
  have disc_rel: "snd (disc p u) = filter notSubscribed (snd (disc' p u')) \<and>
        linkageView (fst (disc p u)) = linkageView (fst (disc' p u'))"
    if "snd u = filter notSubscribed (snd u')" "linkageView (fst u) = linkageView (fst u')" for p u u'
    using that hp [OF that(2) D(1)] emit_linkage_cong [OF that, of Disconnected clk _ clk']
    by (simp add: disc_def disc'_def del: emitAndTrack_simps)
  have conn_rel: "snd (conn u) = filter notSubscribed (snd (conn' u')) \<and>
        linkageView (fst (conn u)) = linkageView (fst (conn' u'))"
    if "snd u = filter notSubscribed (snd u')" "linkageView (fst u) = linkageView (fst u')" for u u'
    using that hp [OF that(2) D(2)] emit_linkage_cong [OF that, of Connected clk _ clk']
    by (simp add: conn_def conn'_def del: emitAndTrack_simps)
  have unf: "discordChanges clk pd m u =
      (case pd of
         Some (Some p) \<Rightarrow> if \<not> truthy (discordId m) then disc p u
                          else if Some p \<noteq> discordId m then conn (disc p u) else u
       | _ \<Rightarrow> if truthy (discordId m) then conn u else u)" for u
    by (simp add: discordChanges_def Let_def disc_def conn_def dm_def split: option.splits)
  have unf': "discordChanges clk' pd m u =
      (case pd of
         Some (Some p) \<Rightarrow> if \<not> truthy (discordId m) then disc' p u
                          else if Some p \<noteq> discordId m then conn' (disc' p u) else u
       | _ \<Rightarrow> if truthy (discordId m) then conn' u else u)" for u
    by (simp add: discordChanges_def Let_def disc'_def conn'_def dm_def split: option.splits)
  show ?thesis
    unfolding unf unf'
    using assms disc_rel [OF assms] conn_rel [OF assms] conn_rel disc_rel
    by (simp split: option.splits)
qed

lemma linkageView_fields:
  "linkageView s = linkageView s' \<Longrightarrow>
     lastMemberships s = lastMemberships s' \<and> lastDiscordIds s = lastDiscordIds s' \<and>
     connectedDiscords s = connectedDiscords s' \<and> disconnectedDiscords s = disconnectedDiscords s'"
  by (simp add: linkageView_def)

lemma linkageView_last_update:
  "linkageView s = linkageView s' \<Longrightarrow>
   linkageView (s\<lparr> lastMemberships := f (lastMemberships s), lastDiscordIds := g (lastDiscordIds s) \<rparr>) =
   linkageView (s'\<lparr> lastMemberships := f (lastMemberships s'), lastDiscordIds := g (lastDiscordIds s') \<rparr>)"
  by (simp add: linkageView_def)

lemma processMember_first_run:
  assumes "firstRunSim t t'"
  shows "firstRunSim (processMember clk m t) (processMember clk' m t')"
proof -
  let ?t0 = "(if truthy (discordId m)
               then ((fst t)\<lparr> discordToMemberMap :=
                        (discordToMemberMap (fst t))(the (discordId m) \<mapsto> m) \<rparr>, snd t)
               else t)"
  let ?t0' = "(if truthy (discordId m)
               then ((fst t')\<lparr> discordToMemberMap :=
                        (discordToMemberMap (fst t'))(the (discordId m) \<mapsto> m) \<rparr>, snd t')
               else t')"
  from assms have lv0: "linkageView (fst t) = linkageView (fst t')"
    by (simp add: firstRunSim_def)
  have eq: "lastMemberships (fst t) = lastMemberships (fst t')"
      "lastDiscordIds (fst t) = lastDiscordIds (fst t')"
    using linkageView_fields [OF lv0] by simp_all
  let ?ps = "map_of (lastMemberships (fst t')) (member_id m)"
  let ?pd = "lastDiscordIds (fst t') (member_id m)"
  have a0: "isFirstRun (fst ?t0)" "\<not> isFirstRun (fst ?t0')"
      "snd ?t0 = filter notSubscribed (snd ?t0')" "linkageView (fst ?t0) = linkageView (fst ?t0')"
    using assms by (simp_all add: firstRunSim_def)
  note a1 = statusChanges_first_run [OF a0, of clk ?ps m clk']
  note a2 = discordChanges_first_run [OF a1, of clk ?pd m clk']
  let ?u = "discordChanges clk ?pd m (statusChanges clk ?ps m ?t0)"
  let ?u' = "discordChanges clk' ?pd m (statusChanges clk' ?ps m ?t0')"
  have fr: "isFirstRun (fst ?u)" "\<not> isFirstRun (fst ?u')"
    using a0(1,2) by simp_all
  have lv: "linkageView ((fst ?u)\<lparr> lastMemberships :=
                     AList.update (member_id m) (status m) (lastMemberships (fst ?u)),
                   lastDiscordIds := (lastDiscordIds (fst ?u))(member_id m \<mapsto> discordId m) \<rparr>) =
            linkageView ((fst ?u')\<lparr> lastMemberships :=
                     AList.update (member_id m) (status m) (lastMemberships (fst ?u')),
                   lastDiscordIds := (lastDiscordIds (fst ?u'))(member_id m \<mapsto> discordId m) \<rparr>)"
    using a2 by (intro linkageView_last_update [where f = "AList.update (member_id m) (status m)"
        and g = "\<lambda>l. l(member_id m \<mapsto> discordId m)"]) simp
  show ?thesis
    unfolding firstRunSim_def processMember_def Let_def eq
    using fr lv a2 by simp
qed

lemma fold_processMember_first_run:
  "firstRunSim t t' \<Longrightarrow> firstRunSim (fold (processMember clk) C t) (fold (processMember clk') C t')"
  by (induction C arbitrary: t t') (simp_all add: processMember_first_run)

lemma removeMember_first_run:
  assumes "firstRunSim t t'"
  shows "firstRunSim (removeMember clk cur i t) (removeMember clk' cur i t')"
proof (cases "i \<in> cur")
  case True
  with assms show ?thesis by (simp add: removeMember_def)
next
  case False
  from assms have sim: "snd t = filter notSubscribed (snd t')" "linkageView (fst t) = linkageView (fst t')"
    and fr: "isFirstRun (fst t)" "\<not> isFirstRun (fst t')"
    by (simp_all add: firstRunSim_def)
  note eq = linkageView_fields [OF sim(2)]
  define dm where "dm = (\<lambda>d. \<lparr> member_id = i,
        status = (if truthy (map_of (lastMemberships (fst t')) i)
                  then the (map_of (lastMemberships (fst t')) i) else ''none''),
        discordId = Some d \<rparr>)"
  define u where "u = (case lastDiscordIds (fst t') i of
        Some (Some d) \<Rightarrow> if d \<noteq> [] then
            (if \<not> hasProcessedEvent Disconnected (dm d) (fst t)
             then emitAndTrack clk Disconnected (dm d) t else t) else t
      | _ \<Rightarrow> t)"
  define u' where "u' = (case lastDiscordIds (fst t') i of
        Some (Some d) \<Rightarrow> if d \<noteq> [] then
            (if \<not> hasProcessedEvent Disconnected (dm d) (fst t')
             then emitAndTrack clk' Disconnected (dm d) t' else t') else t'
      | _ \<Rightarrow> t')"
  have hp: "hasProcessedEvent Disconnected x (fst t) = hasProcessedEvent Disconnected x (fst t')" for x
    using sim(2) by (rule hasProcessedEvent_cong) (simp add: linkageNames_def)
  have rel: "snd u = filter notSubscribed (snd u') \<and> linkageView (fst u) = linkageView (fst u')"
    using sim hp emit_linkage_cong [OF sim, of Disconnected clk _ clk']
    by (simp add: u_def u'_def split: option.splits del: emitAndTrack_simps)
  have fr': "isFirstRun (fst u)" "\<not> isFirstRun (fst u')"
    using fr by (simp_all add: u_def u'_def split: option.splits)
  have unf: "removeMember clk cur i t =
      ((fst u)\<lparr> lastMemberships := AList.delete i (lastMemberships (fst u)),
                lastDiscordIds := (lastDiscordIds (fst u))(i := None) \<rparr>, snd u)"
    using False eq by (simp add: removeMember_def Let_def u_def dm_def split: option.splits)
  have unf': "removeMember clk' cur i t' =
      ((fst u')\<lparr> lastMemberships := AList.delete i (lastMemberships (fst u')),
                 lastDiscordIds := (lastDiscordIds (fst u'))(i := None) \<rparr>, snd u')"
    using False by (simp add: removeMember_def Let_def u'_def dm_def split: option.splits)
  have "linkageView ((fst u)\<lparr> lastMemberships := AList.delete i (lastMemberships (fst u)),
                lastDiscordIds := (lastDiscordIds (fst u))(i := None) \<rparr>) =
        linkageView ((fst u')\<lparr> lastMemberships := AList.delete i (lastMemberships (fst u')),
                 lastDiscordIds := (lastDiscordIds (fst u'))(i := None) \<rparr>)"
    using rel by (intro linkageView_last_update [where f = "AList.delete i" and g = "\<lambda>l. l(i := None)"]) simp
  then show ?thesis
    unfolding unf unf' firstRunSim_def using rel fr' by simp
qed

lemma fold_removeMember_first_run:
  "firstRunSim t t' \<Longrightarrow>
   firstRunSim (fold (removeMember clk cur) ks t) (fold (removeMember clk' cur) ks t')"
  by (induction ks arbitrary: t t') (simp_all add: removeMember_first_run)

lemma reconcile_first_run:
  "snd (reconcile clk C (s\<lparr> isFirstRun := True \<rparr>)) =
   filter notSubscribed (snd (reconcile clk' C (s\<lparr> isFirstRun := False \<rparr>)))"
proof -
  let ?t0 = "(s\<lparr> isFirstRun := True, discordToMemberMap := Map.empty \<rparr>, [])"
  let ?t0' = "(s\<lparr> isFirstRun := False, discordToMemberMap := Map.empty \<rparr>, [])"
  have "firstRunSim ?t0 ?t0'"
    by (simp add: firstRunSim_def linkageView_def)
  then have 1: "firstRunSim (fold (processMember clk) C ?t0) (fold (processMember clk') C ?t0')"
    by (rule fold_processMember_first_run)
  then have "linkageView (fst (fold (processMember clk) C ?t0)) =
             linkageView (fst (fold (processMember clk') C ?t0'))"
    by (simp add: firstRunSim_def)
  from linkageView_fields [OF this]
  have keys: "lastMemberships (fst (fold (processMember clk) C ?t0)) =
              lastMemberships (fst (fold (processMember clk') C ?t0'))"
    by simp
  from fold_removeMember_first_run [OF 1] show ?thesis
    by (simp add: reconcile_def Let_def keys firstRunSim_def)
qed

lemma discordChanges_cold:
  assumes "connectedDiscords (fst t) (member_id m) = truthyPart pd"
      and "connectedDiscords (fst t) (member_id m) \<noteq> None \<longrightarrow>
           disconnectedDiscords (fst t) (member_id m) = None"
  shows "connectedDiscords (fst (discordChanges clk pd m t)) (member_id m) =
           (if truthy (discordId m) then discordId m else None)"
    and "truthy (discordId m) \<Longrightarrow> truthyPart pd \<noteq> discordId m \<Longrightarrow>
           MemberEvent Connected m \<in> set (snd (discordChanges clk pd m t))"
  using assms
  by (auto simp: discordChanges_def Let_def truthyPart_def truthy_def hasProcessedEvent_def
        track.simps split: option.splits if_splits)

lemma processMember_prefix:
  "set (snd t) \<subseteq> set (snd (processMember clk m t))"
  using processMember_events [of clk m t] by auto

lemma fold_processMember_prefix:
  "set (snd t) \<subseteq> set (snd (fold (processMember clk) C t))"
  using fold_processMember_events [of clk C t] by auto

lemma fold_removeMember_prefix:
  "set (snd t) \<subseteq> set (snd (fold (removeMember clk cur) ks t))"
  using fold_removeMember_events [of clk cur ks t] by auto

lemma connectedEmitted_iff:
  "connectedEmitted i d out \<longleftrightarrow>
     (\<exists>p. MemberEvent Connected p \<in> set out \<and> member_id p = i \<and> discordId p = d)"
proof
  assume "connectedEmitted i d out"
  then obtain e where e: "e \<in> set out" "nameOf e = Some Connected" "eventOf UNIV i e"
      "case e of MemberEvent k p \<Rightarrow> discordId p = d | ErrorEvent \<Rightarrow> False"
    unfolding connectedEmitted_def by blast
  show "\<exists>p. MemberEvent Connected p \<in> set out \<and> member_id p = i \<and> discordId p = d"
  proof (cases e)
    case ErrorEvent
    with e(2) show ?thesis by simp
  next
    case (MemberEvent k p)
    with e show ?thesis by auto
  qed
next
  assume "\<exists>p. MemberEvent Connected p \<in> set out \<and> member_id p = i \<and> discordId p = d"
  then obtain p where "MemberEvent Connected p \<in> set out" "member_id p = i" "discordId p = d"
    by blast
  then show "connectedEmitted i d out"
    unfolding connectedEmitted_def by (intro bexI [of _ "MemberEvent Connected p"]) simp_all
qed

lemma connectedEmitted_mono:
  "connectedEmitted i d out \<Longrightarrow> set out \<subseteq> set out' \<Longrightarrow> connectedEmitted i d out'"
  by (auto simp: connectedEmitted_iff)

lemma processMember_linkageExclusive:
  assumes "linkageExclusive (fst t)"
  shows "linkageExclusive (fst (processMember clk m t))"
  using assms unfolding linkageExclusive_trackers
  by (rule processMember_trackers [rotated])
     (use track_linkageExclusive in \<open>simp add: linkageExclusive_trackers\<close>)

lemma linkageExclusiveD:
  "linkageExclusive s \<Longrightarrow> connectedDiscords s i \<noteq> None \<Longrightarrow> disconnectedDiscords s i = None"
  unfolding linkageExclusive_def by (meson disjoint_iff domIff)

lemma processMember_connected:
  assumes "coldInv t"
  shows "connectedDiscords (fst (processMember clk m t)) (member_id m) =
           (if truthy (discordId m) then discordId m else None)"
    and "truthy (discordId m) \<Longrightarrow> connectedEmitted (member_id m) (discordId m) (snd (processMember clk m t))"
proof -
  let ?t0 = "(if truthy (discordId m)
               then ((fst t)\<lparr> discordToMemberMap :=
                        (discordToMemberMap (fst t))(the (discordId m) \<mapsto> m) \<rparr>, snd t)
               else t)"
  let ?ps = "map_of (lastMemberships (fst t)) (member_id m)"
  let ?pd = "lastDiscordIds (fst t) (member_id m)"
  let ?t1 = "statusChanges clk ?ps m ?t0"
  have c: "connectedDiscords (fst ?t1) (member_id m) = truthyPart ?pd"
    using assms by (simp add: coldInv_def)
  have e: "connectedDiscords (fst ?t1) (member_id m) \<noteq> None \<longrightarrow>
           disconnectedDiscords (fst ?t1) (member_id m) = None"
    using assms linkageExclusiveD [of "fst t" "member_id m"] by (simp add: coldInv_def)
  note dc = discordChanges_cold [OF c e, of clk]
  have out: "snd (processMember clk m t) = snd (discordChanges clk ?pd m ?t1)"
    by (simp add: processMember_def Let_def)
  show "connectedDiscords (fst (processMember clk m t)) (member_id m) =
           (if truthy (discordId m) then discordId m else None)"
    using dc(1) by (simp add: processMember_def Let_def)
  show "connectedEmitted (member_id m) (discordId m) (snd (processMember clk m t))"
    if tr: "truthy (discordId m)"
  proof (cases "truthyPart ?pd = discordId m")
    case True
    from tr obtain d where d: "discordId m = Some d" by (cases "discordId m") (simp_all add: truthy_def)
    with True assms have "connectedDiscords (fst t) (member_id m) = Some d"
      by (simp add: coldInv_def)
    with assms have "connectedEmitted (member_id m) (Some d) (snd t)"
      by (simp add: coldInv_def)
    then show ?thesis using d processMember_prefix connectedEmitted_mono by metis
  next
    case False
    from dc(2) [OF tr False] show ?thesis
      unfolding out connectedEmitted_iff by blast
  qed
qed

lemma processMember_coldInv:
  assumes "coldInv t"
  shows "coldInv (processMember clk m t)"
proof -
  have I1: "connectedDiscords (fst (processMember clk m t)) i =
            truthyPart (lastDiscordIds (fst (processMember clk m t)) i)" for i
  proof (cases "i = member_id m")
    case True
    then show ?thesis
      using processMember_connected(1) [OF assms, of clk m]
      by (cases "discordId m") (auto simp: truthyPart_def truthy_def)
  next
    case False
    then show ?thesis
      using assms by (simp add: processMember_other coldInv_def)
  qed
  have I2: "linkageExclusive (fst (processMember clk m t))"
    using assms by (simp add: coldInv_def processMember_linkageExclusive)
  have I3: "connectedEmitted i (Some d) (snd (processMember clk m t))"
    if "connectedDiscords (fst (processMember clk m t)) i = Some d" for i d
  proof (cases "i = member_id m")
    case True
    with that processMember_connected(1) [OF assms, of clk m]
    have "truthy (discordId m)" "discordId m = Some d"
      by (auto split: if_splits)
    with processMember_connected(2) [OF assms, of m clk] True show ?thesis by simp
  next
    case False
    with that have "connectedDiscords (fst t) i = Some d"
      by (simp add: processMember_other)
    with assms have "connectedEmitted i (Some d) (snd t)" by (simp add: coldInv_def)
    then show ?thesis using processMember_prefix connectedEmitted_mono by metis
  qed
  from I1 I2 I3 show ?thesis unfolding coldInv_def by blast
qed

lemma fold_processMember_cold:
  assumes "coldInv t"
  shows "\<forall>m \<in> set C. truthy (discordId m) \<longrightarrow>
           connectedEmitted (member_id m) (discordId m) (snd (fold (processMember clk) C t))"
  using assms
proof (induction C arbitrary: t)
  case Nil
  then show ?case by simp
next
  case (Cons m C)
  have inv: "coldInv (processMember clk m t)"
    using Cons.prems by (rule processMember_coldInv)
  have "connectedEmitted (member_id m) (discordId m) (snd (fold (processMember clk) C (processMember clk m t)))"
    if "truthy (discordId m)"
    using processMember_connected(2) [OF Cons.prems that, of clk]
          fold_processMember_prefix [of "processMember clk m t" clk C] connectedEmitted_mono
    by blast
  with Cons.IH [OF inv] show ?case by simp
qed

lemma cold_start_connected:
  assumes "m \<in> set C" "truthy (discordId m)"
  shows "connectedEmitted (member_id m) (discordId m) (snd (reconcile clk C initial))"
proof -
  let ?t0 = "(initial\<lparr> discordToMemberMap := Map.empty \<rparr>, [])"
  have "coldInv ?t0"
    by (simp add: coldInv_def initial_def truthyPart_def linkageExclusive_def)
  from fold_processMember_cold [OF this, of C clk] assms
  have "connectedEmitted (member_id m) (discordId m) (snd (fold (processMember clk) C ?t0))"
    by blast
  then show ?thesis
    unfolding reconcile_def Let_def
    using fold_removeMember_prefix connectedEmitted_mono by (metis snd_conv)
qed



section \<open>Reconciling the same batch twice\<close>

lemma processMember_unchanged:
  assumes "map_of (lastMemberships (fst t)) (member_id m) = Some (status m)" "status m \<noteq> []"
      and "lastDiscordIds (fst t) (member_id m) = Some (discordId m)" "discordId m \<noteq> Some []"
  shows "processMember clk m t =
           ((fst t)\<lparr> discordToMemberMap :=
               (if truthy (discordId m)
                then (discordToMemberMap (fst t))(the (discordId m) \<mapsto> m)
                else discordToMemberMap (fst t)) \<rparr>, snd t)"
proof -
  let ?t0 = "(if truthy (discordId m)
               then ((fst t)\<lparr> discordToMemberMap :=
                        (discordToMemberMap (fst t))(the (discordId m) \<mapsto> m) \<rparr>, snd t)
               else t)"
  have s: "statusChanges clk (Some (status m)) m ?t0 = ?t0"
    using assms(2) by (simp add: statusChanges_def truthy_def)
  have d: "discordChanges clk (Some (discordId m)) m ?t0 = ?t0"
    using assms(4) by (cases "discordId m") (simp_all add: discordChanges_def truthy_def)
  have u: "AList.update (member_id m) (status m) (lastMemberships (fst ?t0)) = lastMemberships (fst ?t0)"
    using assms(1) by (simp add: update_triv)
  have l: "(lastDiscordIds (fst ?t0))(member_id m \<mapsto> discordId m) = lastDiscordIds (fst ?t0)"
    using assms(3) by (simp add: map_upd_triv)
  show ?thesis
    unfolding processMember_def Let_def assms(1,3) s d u l
    by (cases t) simp
qed

lemma fold_processMember_unchanged:
  assumes "\<forall>m \<in> set C. map_of (lastMemberships (fst t)) (member_id m) = Some (status m) \<and>
              status m \<noteq> [] \<and> lastDiscordIds (fst t) (member_id m) = Some (discordId m) \<and>
              discordId m \<noteq> Some []"
  shows "fold (processMember clk) C t =
           ((fst t)\<lparr> discordToMemberMap :=
               discordToMemberMap (fst (fold (processMember clk) C t)) \<rparr>, snd t)"
  using assms
proof (induction C arbitrary: t)
  case Nil
  then show ?case by (cases t) simp
next
  case (Cons m C)
  let ?t' = "processMember clk m t"
  have step: "?t' = ((fst t)\<lparr> discordToMemberMap :=
               (if truthy (discordId m)
                then (discordToMemberMap (fst t))(the (discordId m) \<mapsto> m)
                else discordToMemberMap (fst t)) \<rparr>, snd t)"
    using Cons.prems by (intro processMember_unchanged) simp_all
  have same: "lastMemberships (fst ?t') = lastMemberships (fst t)"
      "lastDiscordIds (fst ?t') = lastDiscordIds (fst t)"
    by (subst step, simp)+
  have "\<forall>m \<in> set C. map_of (lastMemberships (fst ?t')) (member_id m) = Some (status m) \<and>
              status m \<noteq> [] \<and> lastDiscordIds (fst ?t') (member_id m) = Some (discordId m) \<and>
              discordId m \<noteq> Some []"
    unfolding same using Cons.prems by simp
  then have "fold (processMember clk) C ?t' =
           ((fst ?t')\<lparr> discordToMemberMap :=
               discordToMemberMap (fst (fold (processMember clk) C ?t')) \<rparr>, snd ?t')"
    by (rule Cons.IH)
  moreover have "(fst ?t')\<lparr> discordToMemberMap := x \<rparr> = (fst t)\<lparr> discordToMemberMap := x \<rparr>"
     and "snd ?t' = snd t" for x
    by (subst step, simp)+
  ultimately show ?case by simp
qed

text \<open>The lookup index depends on the batch alone.\<close>

lemma processMember_discordToMemberMap:
  "discordToMemberMap (fst (processMember clk m t)) =
     (if truthy (discordId m) then (discordToMemberMap (fst t))(the (discordId m) \<mapsto> m)
      else discordToMemberMap (fst t))"
  by (simp add: processMember_def Let_def)

lemma fold_processMember_discordToMemberMap:
  "discordToMemberMap (fst t) = discordToMemberMap (fst t') \<Longrightarrow>
   discordToMemberMap (fst (fold (processMember clk) C t)) =
   discordToMemberMap (fst (fold (processMember clk') C t'))"
  by (induction C arbitrary: t t') (simp_all add: processMember_discordToMemberMap)

lemma fold_removeMember_discordToMemberMap:
  "discordToMemberMap (fst (fold (removeMember clk cur) ks t)) = discordToMemberMap (fst t)"
  by (induction ks arbitrary: t) simp_all

lemma fold_removeMember_nothing:
  "set ks \<subseteq> cur \<Longrightarrow> fold (removeMember clk cur) ks t = t"
  by (induction ks arbitrary: t) (simp_all add: removeMember_def)

lemma isFirstRun_update_triv:
  "\<not> isFirstRun s \<Longrightarrow> s\<lparr> isFirstRun := False \<rparr> = s"
  by (cases s) simp

lemma discordToMemberMap_update_triv:
  "discordToMemberMap s = d \<Longrightarrow> s\<lparr> discordToMemberMap := d \<rparr> = s"
  by (cases s) auto

lemma distinct_batch_lookup:
  assumes "distinct (map member_id C)" "m \<in> set C"
  shows "map_of (rev (map (\<lambda>m. (member_id m, f m)) C)) (member_id m) = Some (f m)"
proof -
  have "distinct (map fst (rev (map (\<lambda>m. (member_id m, f m)) C)))"
    using assms(1) by (simp add: rev_map [symmetric] comp_def)
  moreover have "(member_id m, f m) \<in> set (rev (map (\<lambda>m. (member_id m, f m)) C))"
    using assms(2) by auto
  ultimately show ?thesis by (rule map_of_is_SomeI)
qed

text \<open>
  Claim C3, amended. For a batch whose records have pairwise distinct ids and carry a
  status and a linkage as the fetch produces them (a non-empty status, a linkage that
  is \<open>null\<close> or non-empty), whatever the state before: reconciling the batch a second
  time against the state the first reconciliation left emits no event and leaves that
  state as it is.
\<close>

theorem reconcile_twice_is_silent:
  assumes "distinct (map member_id batch)"
      and "\<forall>m \<in> set batch. status m \<noteq> [] \<and> discordId m \<noteq> Some []"
  shows "reconcile clock' batch (fst (reconcile clock batch s)) = (fst (reconcile clock batch s), [])"
proof -
  define s' where "s' = fst (reconcile clock batch s)"
  let ?cur = "set (map member_id batch)"
  let ?t0 = "(s'\<lparr> discordToMemberMap := Map.empty \<rparr>, [])"
  let ?t1 = "fold (processMember clock') batch ?t0"
  have st: "map_of (lastMemberships s') = map_of (rev (map (\<lambda>m. (member_id m, status m)) batch))"
    and ld: "\<forall>m \<in> set batch. lastDiscordIds s' (member_id m) =
        map_of (rev (map (\<lambda>m. (member_id m, discordId m)) batch)) (member_id m)"
    using reconcile_last_maps [of clock batch s] by (simp_all add: s'_def)
  have nf: "\<not> isFirstRun s'"
    by (simp add: s'_def reconcile_def Let_def)
  have idx: "discordToMemberMap s' = discordToMemberMap (fst ?t1)"
    unfolding s'_def reconcile_def Let_def
    by (simp add: fold_removeMember_discordToMemberMap)
       (rule fold_processMember_discordToMemberMap, simp)
  have cond: "\<forall>m \<in> set batch. map_of (lastMemberships (fst ?t0)) (member_id m) = Some (status m) \<and>
              status m \<noteq> [] \<and> lastDiscordIds (fst ?t0) (member_id m) = Some (discordId m) \<and>
              discordId m \<noteq> Some []"
    using assms(2) ld distinct_batch_lookup [OF assms(1), where f = status]
      distinct_batch_lookup [OF assms(1), where f = discordId]
    by (simp add: st)
  have t1: "?t1 = (s', [])"
    using fold_processMember_unchanged [OF cond, of clock'] idx
    by (simp add: discordToMemberMap_update_triv)
  have "fst ` set (lastMemberships s') = member_id ` set batch"
    using arg_cong [OF st, of dom] by (simp add: dom_map_of_conv_image_fst image_image)
  then have keys: "set (map fst (lastMemberships s')) \<subseteq> ?cur"
    by simp
  have "reconcile clock' batch s' = (s', [])"
    unfolding reconcile_def Let_def t1
    using fold_removeMember_nothing [OF keys] nf
    by (simp add: isFirstRun_update_triv)
  then show ?thesis by (simp add: s'_def)
qed

theorem reconcile_twice_is_silent_witness:
  "distinct (map member_id
      [\<lparr> member_id = Some ''A'', status = ''active_patron'', discordId = Some ''D1'' \<rparr>,
       \<lparr> member_id = Some ''B'', status = ''former_patron'', discordId = None \<rparr>]) \<and>
   reconcile id
      [\<lparr> member_id = Some ''A'', status = ''active_patron'', discordId = Some ''D1'' \<rparr>,
       \<lparr> member_id = Some ''B'', status = ''former_patron'', discordId = None \<rparr>]
      (fst (reconcile id
         [\<lparr> member_id = Some ''A'', status = ''active_patron'', discordId = Some ''D1'' \<rparr>,
          \<lparr> member_id = Some ''B'', status = ''former_patron'', discordId = None \<rparr>] initial))
   = (fst (reconcile id
         [\<lparr> member_id = Some ''A'', status = ''active_patron'', discordId = Some ''D1'' \<rparr>,
          \<lparr> member_id = Some ''B'', status = ''former_patron'', discordId = None \<rparr>] initial), [])"
  using reconcile_twice_is_silent [of "[\<lparr> member_id = Some ''A'', status = ''active_patron'', discordId = Some ''D1'' \<rparr>,
       \<lparr> member_id = Some ''B'', status = ''former_patron'', discordId = None \<rparr>]" id id initial]
  by simp

text \<open>
  Claim C3 fails as stated for a batch that holds two records of one id. The second
  record overwrites the status the first one stored, so on the second run the first
  record is a status change again: with records active and former of \<open>A\<close>, the second
  run emits \<open>reactivated\<close> and \<open>canceled\<close>.
\<close>

theorem reconcile_twice_counterexample:
  "snd (reconcile id
          [\<lparr> member_id = Some ''A'', status = ''active_patron'', discordId = None \<rparr>,
           \<lparr> member_id = Some ''A'', status = ''former_patron'', discordId = None \<rparr>]
          (fst (reconcile id
             [\<lparr> member_id = Some ''A'', status = ''active_patron'', discordId = None \<rparr>,
              \<lparr> member_id = Some ''A'', status = ''former_patron'', discordId = None \<rparr>]
             initial)))
   = [MemberEvent Reactivated \<lparr> member_id = Some ''A'', status = ''active_patron'', discordId = None \<rparr>,
      MemberEvent Canceled \<lparr> member_id = Some ''A'', status = ''former_patron'', discordId = None \<rparr>]"
proof -
  let ?a = "\<lparr> member_id = Some ''A'', status = ''active_patron'', discordId = None \<rparr>"
  let ?f = "\<lparr> member_id = Some ''A'', status = ''former_patron'', discordId = None \<rparr>"
  let ?s1 = "initial\<lparr> lastMemberships := [(Some ''A'', ''active_patron'')],
               lastDiscordIds := [Some ''A'' \<mapsto> None] \<rparr>"
  let ?s2 = "initial\<lparr> lastMemberships := [(Some ''A'', ''former_patron'')],
               lastDiscordIds := [Some ''A'' \<mapsto> None],
               canceledMembers := [Some ''A'' \<mapsto> 0] \<rparr>"
  let ?s' = "?s2\<lparr> isFirstRun := False \<rparr>"
  let ?s3 = "?s'\<lparr> lastMemberships := [(Some ''A'', ''active_patron'')],
               canceledMembers := Map.empty,
               reactivatedMembers := [Some ''A'' \<mapsto> 0] \<rparr>"
  let ?s4 = "?s'\<lparr> canceledMembers := [Some ''A'' \<mapsto> 1] \<rparr>"
  have 1: "processMember id ?a (initial\<lparr> discordToMemberMap := Map.empty \<rparr>, []) = (?s1, [])"
    by (simp add: step_defs)
  have 2: "processMember id ?f (?s1, []) = (?s2, [MemberEvent Canceled ?f])"
    by (simp add: step_defs)
  have f1: "fold (processMember id) [?a, ?f] (initial\<lparr> discordToMemberMap := Map.empty \<rparr>, [])
             = (?s2, [MemberEvent Canceled ?f])"
    by (simp only: fold_simps comp_apply id_apply 1 2)
  have r1: "fold (removeMember id (set (map member_id [?a, ?f])))
              (map fst (lastMemberships (fst (?s2, [MemberEvent Canceled ?f]))))
              (?s2, [MemberEvent Canceled ?f]) = (?s2, [MemberEvent Canceled ?f])"
    by (simp add: removeMember_def)
  have first: "reconcile id [?a, ?f] initial = (?s', [MemberEvent Canceled ?f])"
    using reconcile_by_steps [OF f1 r1] by simp
  have 3: "processMember id ?a (?s'\<lparr> discordToMemberMap := Map.empty \<rparr>, [])
             = (?s3, [MemberEvent Reactivated ?a])"
    by (simp add: step_defs)
  have 4: "processMember id ?f (?s3, [MemberEvent Reactivated ?a])
             = (?s4, [MemberEvent Reactivated ?a, MemberEvent Canceled ?f])"
    by (simp add: step_defs)
  have f2: "fold (processMember id) [?a, ?f] (?s'\<lparr> discordToMemberMap := Map.empty \<rparr>, [])
             = (?s4, [MemberEvent Reactivated ?a, MemberEvent Canceled ?f])"
    by (simp only: fold_simps comp_apply id_apply 3 4)
  have r2: "fold (removeMember id (set (map member_id [?a, ?f])))
              (map fst (lastMemberships (fst (?s4, [MemberEvent Reactivated ?a, MemberEvent Canceled ?f]))))
              (?s4, [MemberEvent Reactivated ?a, MemberEvent Canceled ?f])
            = (?s4, [MemberEvent Reactivated ?a, MemberEvent Canceled ?f])"
    by (simp add: removeMember_def)
  have "snd (reconcile id [?a, ?f] ?s') = [MemberEvent Reactivated ?a, MemberEvent Canceled ?f]"
    using reconcile_by_steps [OF f2 r2] by simp
  then show ?thesis by (simp only: first fst_conv)
qed

section \<open>The order of the events of an entity\<close>

lemma entityOrdered_no_lifecycle:
  "\<forall>e \<in> set es. \<not> eventOf lifecycleNames i e \<Longrightarrow> entityOrdered i es"
  by (induction es) simp_all

lemma entityOrdered_append_no_lifecycle:
  "\<forall>e \<in> set ys. \<not> eventOf lifecycleNames i e \<Longrightarrow>
   entityOrdered i (xs @ ys) = entityOrdered i xs"
  by (induction xs) (auto simp: entityOrdered_no_lifecycle)

lemma entityOrdered_append_no_linkage:
  "\<forall>e \<in> set xs. \<not> eventOf linkageNames i e \<Longrightarrow>
   entityOrdered i (xs @ ys) = entityOrdered i ys"
  by (induction xs) simp_all

lemma names_disjoint:
  "eventOf lifecycleNames i e \<Longrightarrow> \<not> eventOf linkageNames j e"
  "eventOf linkageNames i e \<Longrightarrow> \<not> eventOf lifecycleNames j e"
  by (cases e; auto simp: lifecycleNames_def linkageNames_def)+

lemma recordBlock_entityOrdered:
  assumes "recordBlock m b"
  shows "entityOrdered i b"
proof -
  let ?P = "eventOf lifecycleNames (member_id m)"
  have lk: "\<forall>e \<in> set (dropWhile ?P b). \<not> eventOf lifecycleNames i e"
    using assms names_disjoint(2) by (auto simp: recordBlock_def)
  have lc: "\<forall>e \<in> set (takeWhile ?P b). \<not> eventOf linkageNames i e"
    using names_disjoint(1) by (auto dest: set_takeWhileD)
  have "entityOrdered i (takeWhile ?P b @ dropWhile ?P b) = entityOrdered i (dropWhile ?P b)"
    using lc by (rule entityOrdered_append_no_linkage)
  moreover have "entityOrdered i (dropWhile ?P b)"
    using lk by (rule entityOrdered_no_lifecycle)
  ultimately show ?thesis by simp
qed

lemma blocks_silent:
  assumes "list_all2 recordBlock C bs" "i \<notin> member_id ` set C"
  shows "\<forall>e \<in> set (concat bs). \<not> eventOf names i e"
  using assms
proof (induction rule: list_all2_induct)
  case Nil
  then show ?case by simp
next
  case (Cons m C b bs)
  have "\<not> eventOf names i e" if "e \<in> set b" for e
    using recordBlock_about [OF Cons.hyps(1) that] Cons.prems
    by (cases e) (auto simp: eventOf_def)
  with Cons show ?case by auto
qed

lemma blocks_entityOrdered:
  assumes "list_all2 recordBlock C bs" "distinct (map member_id C)"
  shows "entityOrdered i (concat bs)"
  using assms
proof (induction rule: list_all2_induct)
  case Nil
  then show ?case by simp
next
  case (Cons m C b bs)
  show ?case
  proof (cases "member_id m = i")
    case True
    with Cons.prems have "i \<notin> member_id ` set C" by auto
    from blocks_silent [OF Cons.hyps(2) this]
    have "\<forall>e \<in> set (concat bs). \<not> eventOf lifecycleNames i e" .
    then show ?thesis
      using recordBlock_entityOrdered [OF Cons.hyps(1)]
      by (simp add: entityOrdered_append_no_lifecycle)
  next
    case False
    have "\<not> eventOf linkageNames i e" if "e \<in> set b" for e
      using recordBlock_about [OF Cons.hyps(1) that] False
      by (cases e) (auto simp: eventOf_def)
    then show ?thesis
      using Cons by (simp add: entityOrdered_append_no_linkage)
  qed
qed

lemma reconcile_entityOrdered:
  assumes "distinct (map member_id C)"
  shows "entityOrdered i (snd (reconcile clk C s))"
proof -
  obtain bs rm where ev: "snd (reconcile clk C s) = concat bs @ rm" "list_all2 recordBlock C bs"
     "\<forall>e \<in> set rm. \<exists>j. eventOf {Disconnected} j e \<and> j \<notin> member_id ` set C"
    using reconcile_events by blast
  have "\<not> eventOf lifecycleNames i e" if "e \<in> set rm" for e
    using ev(3) that by (cases e) (auto simp: eventOf_def lifecycleNames_def)
  then show ?thesis
    using blocks_entityOrdered [OF ev(2) assms]
    by (simp add: ev(1) entityOrdered_append_no_lifecycle)
qed

text \<open>
  Claim C6, amended. An entity recorded with status active and linkage \<open>d\<close>, alone in
  the state with fresh trackers, and observed with status former and no linkage: the
  tick emits \<open>canceled\<close> for it and then \<open>disconnected\<close> carrying \<open>d\<close>. For every batch
  the events of a tick are one block per record of the batch, in batch order, each
  block being the record's lifecycle events followed by its linkage events, and after
  the blocks come only \<open>disconnected\<close> events of ids that are not in the batch. When
  the ids of the batch are pairwise distinct, no lifecycle event of an entity follows a
  linkage event of that entity.
\<close>

theorem lifecycle_before_linkage_order:
  "snd (reconcile clock
          [\<lparr> member_id = i, status = ''former_patron'', discordId = None \<rparr>]
          (initial\<lparr> lastMemberships := [(i, ''active_patron'')],
                    lastDiscordIds := [i \<mapsto> Some d],
                    isFirstRun := firstRun \<rparr>))
     = [MemberEvent Canceled \<lparr> member_id = i, status = ''former_patron'', discordId = None \<rparr>,
        MemberEvent Disconnected \<lparr> member_id = i, status = ''former_patron'', discordId = Some d \<rparr>]
   \<and> (\<exists>bs rm. snd (reconcile clock batch s) = concat bs @ rm \<and> list_all2 recordBlock batch bs \<and>
      (\<forall>e \<in> set rm. \<exists>j. eventOf {Disconnected} j e \<and> j \<notin> member_id ` set batch))
   \<and> (distinct (map member_id batch) \<longrightarrow> entityOrdered j (snd (reconcile clock batch s)))"
  using reconcile_events [of clock batch s] reconcile_entityOrdered [of batch j clock s]
  by (simp add: tick_defs emitAndTrack_def)

theorem lifecycle_before_linkage_order_witness:
  "snd (reconcile id
          [\<lparr> member_id = Some ''A'', status = ''former_patron'', discordId = None \<rparr>]
          (initial\<lparr> lastMemberships := [(Some ''A'', ''active_patron'')],
                    lastDiscordIds := [Some ''A'' \<mapsto> Some ''D1''],
                    isFirstRun := False \<rparr>))
     = [MemberEvent Canceled \<lparr> member_id = Some ''A'', status = ''former_patron'', discordId = None \<rparr>,
        MemberEvent Disconnected \<lparr> member_id = Some ''A'', status = ''former_patron'', discordId = Some ''D1'' \<rparr>]
   \<and> distinct (map member_id [\<lparr> member_id = Some ''A'', status = ''former_patron'', discordId = None \<rparr>])
   \<and> entityOrdered (Some ''A'')
        (snd (reconcile id
          [\<lparr> member_id = Some ''A'', status = ''former_patron'', discordId = None \<rparr>]
          (initial\<lparr> lastMemberships := [(Some ''A'', ''active_patron'')],
                    lastDiscordIds := [Some ''A'' \<mapsto> Some ''D1''],
                    isFirstRun := False \<rparr>)))"
proof -
  note inst = lifecycle_before_linkage_order
          [where clock = id and i = "Some ''A''" and d = "''D1''" and firstRun = False
             and j = "Some ''A''"
             and batch = "[\<lparr> member_id = Some ''A'', status = ''former_patron'', discordId = None \<rparr>]"
             and s = "initial\<lparr> lastMemberships := [(Some ''A'', ''active_patron'')],
                    lastDiscordIds := [Some ''A'' \<mapsto> Some ''D1''],
                    isFirstRun := False \<rparr>"]
  have d: "distinct (map member_id
             [\<lparr> member_id = Some ''A'', status = ''former_patron'', discordId = None \<rparr>])"
    by simp
  from inst [THEN conjunct2, THEN conjunct2, rule_format, OF d] inst [THEN conjunct1] d
  show ?thesis by (intro conjI)
qed

text \<open>
  Claim C6 fails as stated for a batch that holds two records of one id: the linkage
  events of the first record come before the lifecycle event of the second. With \<open>A\<close>
  recorded active and linked to \<open>D1\<close>, and the batch \<open>A\<close> former without linkage, then
  \<open>A\<close> active with linkage \<open>D2\<close>, the tick emits \<open>canceled\<close>, \<open>disconnected\<close>,
  \<open>reactivated\<close>, \<open>connected\<close>.
\<close>

theorem lifecycle_before_linkage_counterexample:
  "snd (reconcile id
          [\<lparr> member_id = Some ''A'', status = ''former_patron'', discordId = None \<rparr>,
           \<lparr> member_id = Some ''A'', status = ''active_patron'', discordId = Some ''D2'' \<rparr>]
          (initial\<lparr> lastMemberships := [(Some ''A'', ''active_patron'')],
                    lastDiscordIds := [Some ''A'' \<mapsto> Some ''D1''],
                    isFirstRun := False \<rparr>))
     = [MemberEvent Canceled \<lparr> member_id = Some ''A'', status = ''former_patron'', discordId = None \<rparr>,
        MemberEvent Disconnected \<lparr> member_id = Some ''A'', status = ''former_patron'', discordId = Some ''D1'' \<rparr>,
        MemberEvent Reactivated \<lparr> member_id = Some ''A'', status = ''active_patron'', discordId = Some ''D2'' \<rparr>,
        MemberEvent Connected \<lparr> member_id = Some ''A'', status = ''active_patron'', discordId = Some ''D2'' \<rparr>]
   \<and> \<not> entityOrdered (Some ''A'')
      (snd (reconcile id
          [\<lparr> member_id = Some ''A'', status = ''former_patron'', discordId = None \<rparr>,
           \<lparr> member_id = Some ''A'', status = ''active_patron'', discordId = Some ''D2'' \<rparr>]
          (initial\<lparr> lastMemberships := [(Some ''A'', ''active_patron'')],
                    lastDiscordIds := [Some ''A'' \<mapsto> Some ''D1''],
                    isFirstRun := False \<rparr>)))"
proof -
  let ?f = "\<lparr> member_id = Some ''A'', status = ''former_patron'', discordId = None \<rparr>"
  let ?fd = "\<lparr> member_id = Some ''A'', status = ''former_patron'', discordId = Some ''D1'' \<rparr>"
  let ?a = "\<lparr> member_id = Some ''A'', status = ''active_patron'', discordId = Some ''D2'' \<rparr>"
  let ?s0 = "initial\<lparr> lastMemberships := [(Some ''A'', ''active_patron'')],
                    lastDiscordIds := [Some ''A'' \<mapsto> Some ''D1''],
                    isFirstRun := False \<rparr>"
  let ?s1 = "initial\<lparr> lastMemberships := [(Some ''A'', ''former_patron'')],
                    lastDiscordIds := [Some ''A'' \<mapsto> None],
                    isFirstRun := False,
                    canceledMembers := [Some ''A'' \<mapsto> 0],
                    disconnectedDiscords := [Some ''A'' \<mapsto> ''D1''] \<rparr>"
  let ?s2 = "initial\<lparr> lastMemberships := [(Some ''A'', ''active_patron'')],
                    lastDiscordIds := [Some ''A'' \<mapsto> Some ''D2''],
                    isFirstRun := False,
                    reactivatedMembers := [Some ''A'' \<mapsto> Suc (Suc 0)],
                    connectedDiscords := [Some ''A'' \<mapsto> ''D2''],
                    discordToMemberMap := [''D2'' \<mapsto> ?a] \<rparr>"
  let ?e1 = "[MemberEvent Canceled ?f, MemberEvent Disconnected ?fd]"
  let ?e2 = "[MemberEvent Canceled ?f, MemberEvent Disconnected ?fd,
              MemberEvent Reactivated ?a, MemberEvent Connected ?a]"
  have 1: "processMember id ?f (?s0\<lparr> discordToMemberMap := Map.empty \<rparr>, []) = (?s1, ?e1)"
    by (simp add: step_defs)
  have 2: "processMember id ?a (?s1, ?e1) = (?s2, ?e2)"
    by (simp add: step_defs)
  have f: "fold (processMember id) [?f, ?a] (?s0\<lparr> discordToMemberMap := Map.empty \<rparr>, []) = (?s2, ?e2)"
    by (simp only: fold_simps comp_apply id_apply 1 2)
  have r: "fold (removeMember id (set (map member_id [?f, ?a])))
              (map fst (lastMemberships (fst (?s2, ?e2)))) (?s2, ?e2) = (?s2, ?e2)"
    by (simp add: removeMember_def)
  have ev: "snd (reconcile id [?f, ?a] ?s0) = ?e2"
    using reconcile_by_steps [OF f r] by simp
  have "\<not> entityOrdered (Some ''A'') ?e2"
    by (simp add: eventOf_def lifecycleNames_def linkageNames_def)
  with ev show ?thesis by (simp only: simp_thms)
qed

section \<open>Ticks in flight\<close>

text \<open>
  Claim C9 at two failing runs. After \<open>initialize\<close> and the settling of the first check
  the timer is armed, and it starts a tick each time it fires, whether or not the
  previous one has settled: two firings leave two ticks in flight. And when \<open>stop\<close> is
  called before the first check has settled, it finds \<open>intervalId\<close> unset and clears
  nothing; the \<open>then\<close> callback of \<open>initialize\<close> arms the timer afterwards, and a tick
  starts after \<open>stop\<close> has returned.
\<close>

theorem scheduler_overlap_and_late_tick:
  "run [Initialize, FetchSettles, TimerFires, TimerFires] idle
     = Some \<lparr> intervalArmed = True, firstCheckPending = False, inFlight = 2, stopped = False \<rparr> \<and>
   run [Initialize, Stop, FetchSettles] idle
     = Some \<lparr> intervalArmed = True, firstCheckPending = False, inFlight = 0, stopped = True \<rparr> \<and>
   run [Initialize, Stop, FetchSettles, TimerFires] idle
     = Some \<lparr> intervalArmed = True, firstCheckPending = False, inFlight = 1, stopped = True \<rparr>"
  by (simp add: idle_def)

end
